theory Spec2Isabelle
  imports Main "HOL-Library.Sublist"
begin

section \<open>Go strings\<close>

text \<open>
  A Go string is a sequence of bytes, modelled as a \<open>char list\<close>. The functions of
  package \<open>strings\<close> that \<open>main.go\<close> calls are modelled on bytes, as Go implements
  them.
\<close>

abbreviation NL :: char where
  "NL \<equiv> CHR 0x0A"

definition HasPrefix :: "string \<Rightarrow> string \<Rightarrow> bool" where
  "HasPrefix s p = (length p \<le> length s \<and> take (length p) s = p)"

definition HasSuffix :: "string \<Rightarrow> string \<Rightarrow> bool" where
  "HasSuffix s p = (length p \<le> length s \<and> drop (length s - length p) s = p)"

definition TrimPrefix :: "string \<Rightarrow> string \<Rightarrow> string" where
  "TrimPrefix s p = (if HasPrefix s p then drop (length p) s else s)"

text \<open>\<open>strings.Index\<close>: the byte offset of the first occurrence; \<open>None\<close> is Go's \<open>-1\<close>.\<close>

fun Index :: "string \<Rightarrow> string \<Rightarrow> nat option" where
  "Index [] sub = (if sub = [] then Some 0 else None)"
| "Index (c # s) sub =
     (if HasPrefix (c # s) sub then Some 0 else map_option Suc (Index s sub))"

definition Contains :: "string \<Rightarrow> string \<Rightarrow> bool" where
  "Contains s sub = (Index s sub \<noteq> None)"

lemma Index_Some_bound: "Index s sub = Some m \<Longrightarrow> m + length sub \<le> length s"
proof (induction s arbitrary: m)
  case Nil
  then show ?case by (simp split: if_splits)
next
  case (Cons c s)
  then show ?case by (auto simp: HasPrefix_def split: if_splits)
qed

text \<open>
  \<open>strings.Split\<close> cuts at the successive leftmost occurrences of the separator. The
  program only passes the separators \<open>"\n"\<close> and \<open>"=>"\<close>; for the empty separator, which
  Go explodes into UTF-8 sequences, the model gives the bytes one by one.
\<close>

function Split :: "string \<Rightarrow> string \<Rightarrow> string list" where
  "Split s sep =
     (if sep = [] then map (\<lambda>c. [c]) s
      else case Index s sep of
             None \<Rightarrow> [s]
           | Some m \<Rightarrow> take m s # Split (drop (m + length sep) s) sep)"
  by pat_completeness auto
termination
proof (relation "measure (\<lambda>(s, sep). length s)")
  show "wf (measure (\<lambda>(s, sep). length s))" by simp
next
  fix s sep :: string and m :: nat
  assume sep: "sep \<noteq> []" and idx: "Index s sep = Some m"
  from idx have "m + length sep \<le> length s"
    by (rule Index_Some_bound)
  with sep show "((drop (m + length sep) s, sep), (s, sep)) \<in> measure (\<lambda>(s, sep). length s)"
    by (cases sep) simp_all
qed

declare Split.simps [simp del]

subsection \<open>White space\<close>

text \<open>
  \<open>strings.TrimSpace\<close> and \<open>strings.Fields\<close> use \<open>unicode.IsSpace\<close> on the runes decoded
  from the string. The runes with property White\_Space are U+0009 to U+000D, U+0020,
  U+0085, U+00A0, U+1680, U+2000 to U+200A, U+2028, U+2029, U+202F, U+205F and U+3000;
  \<open>space_seqs\<close> lists their UTF-8 encodings. A byte that is not part of such an
  encoding decodes to a rune that is not a space (an invalid byte decodes to U+FFFD).
\<close>

definition space_seqs :: "string list" where
  "space_seqs =
     [[CHR 0x09], [CHR 0x0A], [CHR 0x0B], [CHR 0x0C], [CHR 0x0D], [CHR 0x20],
      [CHR 0xC2, CHR 0x85], [CHR 0xC2, CHR 0xA0],
      [CHR 0xE1, CHR 0x9A, CHR 0x80],
      [CHR 0xE2, CHR 0x80, CHR 0x80], [CHR 0xE2, CHR 0x80, CHR 0x81],
      [CHR 0xE2, CHR 0x80, CHR 0x82], [CHR 0xE2, CHR 0x80, CHR 0x83],
      [CHR 0xE2, CHR 0x80, CHR 0x84], [CHR 0xE2, CHR 0x80, CHR 0x85],
      [CHR 0xE2, CHR 0x80, CHR 0x86], [CHR 0xE2, CHR 0x80, CHR 0x87],
      [CHR 0xE2, CHR 0x80, CHR 0x88], [CHR 0xE2, CHR 0x80, CHR 0x89],
      [CHR 0xE2, CHR 0x80, CHR 0x8A],
      [CHR 0xE2, CHR 0x80, CHR 0xA8], [CHR 0xE2, CHR 0x80, CHR 0xA9],
      [CHR 0xE2, CHR 0x80, CHR 0xAF],
      [CHR 0xE2, CHR 0x81, CHR 0x9F],
      [CHR 0xE3, CHR 0x80, CHR 0x80]]"

text \<open>The encoded space at the head, and at the end, of a string.\<close>

definition space_prefix :: "string \<Rightarrow> string option" where
  "space_prefix s = find (HasPrefix s) space_seqs"

definition space_suffix :: "string \<Rightarrow> string option" where
  "space_suffix s = find (HasSuffix s) space_seqs"

lemma space_seqs_nonempty: "q \<in> set space_seqs \<Longrightarrow> q \<noteq> []"
  by (auto simp: space_seqs_def)

lemma space_prefix_Some:
  assumes "space_prefix s = Some q"
  shows "q \<in> set space_seqs" and "HasPrefix s q" and "q \<noteq> []"
proof -
  from assms show "q \<in> set space_seqs" and "HasPrefix s q"
    by (auto simp: space_prefix_def find_Some_iff)
  then show "q \<noteq> []" by (simp add: space_seqs_nonempty)
qed

lemma space_suffix_Some:
  assumes "space_suffix s = Some q"
  shows "q \<in> set space_seqs" and "HasSuffix s q" and "q \<noteq> []"
proof -
  from assms show "q \<in> set space_seqs" and "HasSuffix s q"
    by (auto simp: space_suffix_def find_Some_iff)
  then show "q \<noteq> []" by (simp add: space_seqs_nonempty)
qed

function TrimLeftSpace :: "string \<Rightarrow> string" where
  "TrimLeftSpace s =
     (case space_prefix s of
        None \<Rightarrow> s
      | Some q \<Rightarrow> TrimLeftSpace (drop (length q) s))"
  by pat_completeness auto
termination
proof (relation "measure length")
  show "wf (measure length)" by simp
next
  fix s q :: string
  assume "space_prefix s = Some q"
  then have "q \<noteq> []" and "HasPrefix s q"
    by (simp_all add: space_prefix_Some)
  then show "(drop (length q) s, s) \<in> measure length"
    by (cases s) (auto simp: HasPrefix_def)
qed

function TrimRightSpace :: "string \<Rightarrow> string" where
  "TrimRightSpace s =
     (case space_suffix s of
        None \<Rightarrow> s
      | Some q \<Rightarrow> TrimRightSpace (take (length s - length q) s))"
  by pat_completeness auto
termination
proof (relation "measure length")
  show "wf (measure length)" by simp
next
  fix s q :: string
  assume "space_suffix s = Some q"
  then have "q \<noteq> []" and "HasSuffix s q"
    by (simp_all add: space_suffix_Some)
  then show "(take (length s - length q) s, s) \<in> measure length"
    by (cases s) (auto simp: HasSuffix_def)
qed

declare TrimLeftSpace.simps [simp del] TrimRightSpace.simps [simp del]

definition TrimSpace :: "string \<Rightarrow> string" where
  "TrimSpace s = TrimRightSpace (TrimLeftSpace s)"

text \<open>
  \<open>strings.Fields\<close>: the maximal runs of bytes between encoded spaces. \<open>cur\<close> is the
  field being read.
\<close>

function fieldsFrom :: "string \<Rightarrow> string \<Rightarrow> string list" where
  "fieldsFrom cur s =
     (if s = [] then (if cur = [] then [] else [cur])
      else case space_prefix s of
             Some q \<Rightarrow> (if cur = [] then [] else [cur]) @ fieldsFrom [] (drop (length q) s)
           | None \<Rightarrow> fieldsFrom (cur @ [hd s]) (tl s))"
  by pat_completeness auto
termination
proof (relation "measure (\<lambda>(cur, s). length s)")
  show "wf (measure (\<lambda>(cur, s). length s))" by simp
next
  fix cur s q :: string
  assume "s \<noteq> []" and "space_prefix s = Some q"
  then have "q \<noteq> []" by (simp add: space_prefix_Some)
  with \<open>s \<noteq> []\<close> show "(([], drop (length q) s), (cur, s)) \<in> measure (\<lambda>(cur, s). length s)"
    by simp
next
  fix cur s :: string
  assume "s \<noteq> []"
  then show "((cur @ [hd s], tl s), (cur, s)) \<in> measure (\<lambda>(cur, s). length s)"
    by simp
qed

declare fieldsFrom.simps [simp del]

definition Fields :: "string \<Rightarrow> string list" where
  "Fields s = fieldsFrom [] s"

section \<open>The manifest parser\<close>

record Dependency =
  Path :: string
  Version :: string

text \<open>\<open>parseRequireLine\<close> returns a pointer; \<open>None\<close> is Go's \<open>nil\<close>.\<close>

definition parseRequireLine :: "string \<Rightarrow> Dependency option" where
  "parseRequireLine line =
     (if Contains line ''indirect'' then None
      else
        let line1 = (case Index line ''//'' of
                       Some idx \<Rightarrow> TrimSpace (take idx line)
                     | None \<Rightarrow> line);
            parts = Fields line1
        in if length parts < 2 then None
           else Some \<lparr>Path = parts ! 0, Version = parts ! 1\<rparr>)"

definition extractReplacePath :: "string \<Rightarrow> string" where
  "extractReplacePath line =
     (let parts = Split line ''=>''
      in if length parts < 2 then []
         else TrimSpace (TrimPrefix (parts ! 0) ''replace ''))"

text \<open>
  The state of the loop of \<open>parseGoMod\<close>: the two results under construction and the
  flag \<open>inRequire\<close>. \<open>replaces\<close> is Go's \<open>map[string]bool\<close>; reading a missing key
  gives \<open>false\<close>.
\<close>

record parse_state =
  dependencies :: "Dependency list"
  replaces :: "string \<rightharpoonup> bool"
  inRequire :: bool

definition lookup :: "(string \<rightharpoonup> bool) \<Rightarrow> string \<Rightarrow> bool" where
  "lookup m k = (case m k of Some b \<Rightarrow> b | None \<Rightarrow> False)"

definition addRequire :: "parse_state \<Rightarrow> string \<Rightarrow> parse_state" where
  "addRequire st line =
     (case parseRequireLine line of
        Some dep \<Rightarrow> st\<lparr>dependencies := dependencies st @ [dep]\<rparr>
      | None \<Rightarrow> st)"

text \<open>One iteration of the loop over the lines, the \<open>switch\<close> in the order of the source.\<close>

definition parseLine :: "parse_state \<Rightarrow> string \<Rightarrow> parse_state" where
  "parseLine st raw =
     (let line = TrimSpace raw
      in if line = [] then st
         else if HasPrefix line ''require ('' then st\<lparr>inRequire := True\<rparr>
         else if HasPrefix line ''require '' \<and> \<not> inRequire st
           then addRequire st (TrimPrefix line ''require '')
         else if inRequire st \<and> line = '')'' then st\<lparr>inRequire := False\<rparr>
         else if inRequire st then addRequire st line
         else if HasPrefix line ''replace ''
           then (let path = extractReplacePath line
                 in if path \<noteq> [] then st\<lparr>replaces := (replaces st)(path \<mapsto> True)\<rparr> else st)
         else st)"

definition initial_state :: parse_state where
  "initial_state = \<lparr>dependencies = [], replaces = Map.empty, inRequire = False\<rparr>"

definition parseLines :: "string list \<Rightarrow> parse_state" where
  "parseLines ls = foldl parseLine initial_state ls"

definition parseGoMod :: "string \<Rightarrow> Dependency list \<times> (string \<rightharpoonup> bool)" where
  "parseGoMod content =
     (let st = parseLines (Split content [NL])
      in (dependencies st, replaces st))"

section \<open>The dependency filter\<close>

definition filterStep :: "(string \<rightharpoonup> bool) \<Rightarrow> string \<Rightarrow> string list \<Rightarrow> Dependency \<Rightarrow> string list" where
  "filterStep reps partialName matched dep =
     (if lookup reps (Path dep) then matched
      else if Contains (Path dep) partialName then matched @ [Path dep]
      else matched)"

definition filterDependencies ::
  "Dependency list \<Rightarrow> (string \<rightharpoonup> bool) \<Rightarrow> string \<Rightarrow> string list" where
  "filterDependencies deps reps partialName = foldl (filterStep reps partialName) [] deps"

section \<open>Paths\<close>

text \<open>
  \<open>removeVersionFromPath\<close> deletes the match of the regular expression \<open>(/v\d+)$\<close>.
  \<open>$\<close> matches at the end of the text only and \<open>\d\<close> is an ASCII digit, so the only
  possible match is \<open>/v\<close> followed by the whole final run of digits of the path.
\<close>

definition isDigit :: "char \<Rightarrow> bool" where
  "isDigit c = ((48::nat) \<le> of_char c \<and> (of_char c :: nat) \<le> 57)"

definition removeVersionFromPath :: "string \<Rightarrow> string" where
  "removeVersionFromPath path =
     (let digits = takeWhile isDigit (rev path);
          front = dropWhile isDigit (rev path)
      in if digits \<noteq> [] \<and> HasPrefix front ''v/'' then rev (drop 2 front) else path)"

text \<open>\<open>strings.Join\<close>.\<close>

fun StringsJoin :: "string list \<Rightarrow> string \<Rightarrow> string" where
  "StringsJoin [] sep = []"
| "StringsJoin [x] sep = x"
| "StringsJoin (x # y # ys) sep = x @ sep @ StringsJoin (y # ys) sep"

text \<open>
  \<open>filepath.Clean\<close> and \<open>filepath.Join\<close> with the separator \<open>/\<close>. \<open>cleanStep\<close> handles
  one path element; \<open>out\<close> holds the elements kept so far. Empty elements and \<open>.\<close> are
  dropped; \<open>..\<close> removes the element before it, is dropped at the root, and is kept at
  the start of a path that is not rooted.
\<close>

definition cleanStep :: "bool \<Rightarrow> string list \<Rightarrow> string \<Rightarrow> string list" where
  "cleanStep rooted out e =
     (if e = [] \<or> e = ''.'' then out
      else if e = ''..''
        then (if out \<noteq> [] \<and> last out \<noteq> ''..'' then butlast out
              else if rooted then out
              else out @ [''..''])
      else out @ [e])"

definition Clean :: "string \<Rightarrow> string" where
  "Clean path =
     (if path = [] then ''.''
      else
        let rooted = (hd path = CHR ''/'');
            out = foldl (cleanStep rooted) [] (Split path ''/'')
        in if rooted then CHR ''/'' # StringsJoin out ''/''
           else if out = [] then ''.''
           else StringsJoin out ''/'')"

definition Join :: "string list \<Rightarrow> string" where
  "Join elem =
     (case dropWhile (\<lambda>e. e = []) elem of
        [] \<Rightarrow> []
      | e # es \<Rightarrow> Clean (StringsJoin (e # es) ''/''))"

section \<open>The environment\<close>

text \<open>
  What the program reads and changes outside its memory: the files of the working
  directory, the paths at which \<open>os.Stat\<close> succeeds, the value of \<open>GOPATH\<close>, and the
  bytes that arrive on standard input. The faults say which file operations fail, with
  the message of the system error. Every file operation is appended to \<open>trace\<close>.
  Writes to standard output are not part of the model. An error is its message.
\<close>

type_synonym error = string

datatype event =
    ReadFile string
  | WriteFile string string
  | Rename string string
  | Stat string

text \<open>
  A name of the directory is a hard link to a file or a symbolic link to another name,
  so that two names can open the same file. \<open>store\<close> holds the contents of the files; a
  file is its index in \<open>store\<close>, and a hard link to an index beyond \<open>store\<close> cannot
  be opened. Opening a name follows symbolic links, at most \<open>maxSymlinks\<close> of them as
  Linux does, and ends at a file, at a name that does not exist, or in a loop.
\<close>

datatype dirent =
    Hard nat
  | Sym string

datatype target =
    Found nat
  | Missing string
  | Loop

definition maxSymlinks :: nat where
  "maxSymlinks = 40"

primrec resolve :: "nat \<Rightarrow> (string \<rightharpoonup> dirent) \<Rightarrow> string \<Rightarrow> target" where
  "resolve 0 ns name =
     (case ns name of
        None \<Rightarrow> Missing name
      | Some (Hard i) \<Rightarrow> Found i
      | Some (Sym t) \<Rightarrow> Loop)"
| "resolve (Suc fuel) ns name =
     (case ns name of
        None \<Rightarrow> Missing name
      | Some (Hard i) \<Rightarrow> Found i
      | Some (Sym t) \<Rightarrow> resolve fuel ns t)"

text \<open>
  \<open>os.WriteFile\<close> opens the file with \<open>O_CREATE|O_TRUNC\<close> and then writes. It can fail
  at the open, which leaves the file as it was, or later, which leaves a file that
  holds the bytes that were written before the failure.
\<close>

datatype write_fault =
    OpenFails error
  | WriteFails nat error

text \<open>
  \<open>stdin\<close> is the input still to come, in the pieces in which the operating system
  hands it over: a terminal gives one line at a time, a pipe whatever has been written
  to it. An empty piece is a read that returns no byte, as at the end of the input.
\<close>

record world =
  names :: "string \<rightharpoonup> dirent"
  store :: "string list"
  entries :: "string set"
  GOPATH :: string
  stdin :: "string list"
  read_fault :: "string \<rightharpoonup> error"
  write_fault :: "string \<rightharpoonup> write_fault"
  rename_fault :: "string \<rightharpoonup> error"
  trace :: "event list"

definition log :: "event \<Rightarrow> world \<Rightarrow> world" where
  "log e w = w\<lparr>trace := trace w @ [e]\<rparr>"

text \<open>What reading the file of a name gives, if the name opens a file.\<close>

definition contents :: "world \<Rightarrow> string \<Rightarrow> string option" where
  "contents w name =
     (case resolve maxSymlinks (names w) name of
        Found i \<Rightarrow> (if i < length (store w) then Some (store w ! i) else None)
      | Missing final \<Rightarrow> None
      | Loop \<Rightarrow> None)"

text \<open>Two names open the same file.\<close>

definition same_file :: "world \<Rightarrow> string \<Rightarrow> string \<Rightarrow> bool" where
  "same_file w a b \<longleftrightarrow>
     (case resolve maxSymlinks (names w) a of
        Found i \<Rightarrow> resolve maxSymlinks (names w) b = Found i
      | Missing final \<Rightarrow> False
      | Loop \<Rightarrow> False)"

definition openError :: "string \<Rightarrow> target \<Rightarrow> error" where
  "openError name t =
     (case t of
        Loop \<Rightarrow> ''open '' @ name @ '': too many levels of symbolic links''
      | Missing final \<Rightarrow> ''open '' @ name @ '': no such file or directory''
      | Found i \<Rightarrow> ''open '' @ name @ '': stale file handle'')"

definition os_ReadFile :: "string \<Rightarrow> world \<Rightarrow> (string \<times> error option) \<times> world" where
  "os_ReadFile name w =
     (case read_fault w name of
        Some msg \<Rightarrow> (([], Some msg), log (ReadFile name) w)
      | None \<Rightarrow>
          (case contents w name of
             None \<Rightarrow> (([], Some (openError name (resolve maxSymlinks (names w) name))),
                       log (ReadFile name) w)
           | Some content \<Rightarrow> ((content, None), log (ReadFile name) w)))"

text \<open>
  Opening \<open>name\<close> with \<open>O_CREATE|O_TRUNC\<close> and leaving \<open>bytes\<close> in the file. The file
  that the name opens is overwritten, under all its names; a name that does not exist
  is created, also at the end of symbolic links, as a new file.
\<close>

definition openTrunc :: "string \<Rightarrow> string \<Rightarrow> world \<Rightarrow> error option \<times> world" where
  "openTrunc name bytes w =
     (case resolve maxSymlinks (names w) name of
        Found i \<Rightarrow>
          (if i < length (store w) then (None, w\<lparr>store := (store w)[i := bytes]\<rparr>)
           else (Some (openError name (Found i)), w))
      | Missing final \<Rightarrow>
          (None, w\<lparr>names := (names w)(final \<mapsto> Hard (length (store w))),
                    store := store w @ [bytes]\<rparr>)
      | Loop \<Rightarrow> (Some (openError name Loop), w))"

definition os_WriteFile :: "string \<Rightarrow> string \<Rightarrow> world \<Rightarrow> error option \<times> world" where
  "os_WriteFile name data w =
     (case write_fault w name of
        Some (OpenFails msg) \<Rightarrow> (Some msg, log (WriteFile name data) w)
      | Some (WriteFails n msg) \<Rightarrow>
          (case openTrunc name (take n data) w of
             (Some err, w1) \<Rightarrow> (Some err, log (WriteFile name data) w1)
           | (None, w1) \<Rightarrow> (Some msg, log (WriteFile name data) w1))
      | None \<Rightarrow>
          (case openTrunc name data w of
             (r, w1) \<Rightarrow> (r, log (WriteFile name data) w1)))"

text \<open>
  \<open>os.Rename\<close> works on the names themselves and follows no link. It does nothing
  and succeeds when both names are the same name or hard links to one file; otherwise
  it gives the new name what the old name had, in one step, and removes the old name.
  When it fails it changes nothing.
\<close>

definition sameHardLink :: "dirent \<Rightarrow> dirent option \<Rightarrow> bool" where
  "sameHardLink e e' =
     (case e of
        Hard i \<Rightarrow> e' = Some (Hard i)
      | Sym t \<Rightarrow> False)"

definition os_Rename :: "string \<Rightarrow> string \<Rightarrow> world \<Rightarrow> error option \<times> world" where
  "os_Rename old new w =
     (case rename_fault w old of
        Some msg \<Rightarrow> (Some msg, log (Rename old new) w)
      | None \<Rightarrow>
          (case names w old of
             None \<Rightarrow> (Some (''rename '' @ old @ '' '' @ new @ '': no such file or directory''),
                       log (Rename old new) w)
           | Some e \<Rightarrow>
               if old = new \<or> sameHardLink e (names w new)
               then (None, log (Rename old new) w)
               else (None, log (Rename old new)
                       (w\<lparr>names := (names w)(new \<mapsto> e, old := None)\<rparr>))))"

text \<open>\<open>os_Stat\<close> returns whether \<open>os.Stat\<close> gave no error.\<close>

definition os_Stat :: "string \<Rightarrow> world \<Rightarrow> bool \<times> world" where
  "os_Stat name w = (name \<in> entries w, log (Stat name) w)"

text \<open>
  One read of standard input into a buffer with room for \<open>room\<close> bytes: the bytes read,
  or \<open>None\<close> at the end of the input, and the input that is left.
\<close>

definition readChunk :: "nat \<Rightarrow> string list \<Rightarrow> string option \<times> string list" where
  "readChunk room pending =
     (case pending of
        [] \<Rightarrow> (None, [])
      | c # cs \<Rightarrow>
          if c = [] then (None, cs)
          else if length c \<le> room then (Some c, cs)
          else (Some (take room c), drop room c # cs))"

definition bufSize :: nat where
  "bufSize = 4096"

lemma readChunk_less:
  assumes "readChunk room pending = (Some d, rest)" and "0 < room"
  shows "sum_list (map length rest) + length rest < sum_list (map length pending) + length pending"
proof (cases pending)
  case Nil
  with assms show ?thesis by (simp add: readChunk_def)
next
  case (Cons c cs)
  with assms show ?thesis
    by (auto simp: readChunk_def split: if_splits)
qed

lemma readChunk_less_sym:
  assumes "(Some d, rest) = readChunk room pending" and "0 < room"
  shows "sum_list (map length rest) + length rest < sum_list (map length pending) + length pending"
  using readChunk_less [OF assms(1) [symmetric] assms(2)] .

text \<open>
  \<open>bufio.NewReader(os.Stdin).ReadString('\n')\<close> on a reader of its own: it fills its
  buffer of \<open>bufSize\<close> bytes read by read until a newline is in it or the input ends,
  and returns the bytes up to the newline, with an error if there was none. \<open>acc\<close> is
  what has been read so far. The bytes that were read after the newline stay in the
  buffer of this reader and are lost to the next one.
\<close>

function readLine :: "string \<Rightarrow> string list \<Rightarrow> (string \<times> bool) \<times> string list" where
  "readLine acc pending =
     (case readChunk (bufSize - length acc mod bufSize) pending of
        (None, rest) \<Rightarrow> ((acc, True), rest)
      | (Some d, rest) \<Rightarrow>
          (case Index d [NL] of
             Some i \<Rightarrow> ((acc @ take (Suc i) d, False), rest)
           | None \<Rightarrow> readLine (acc @ d) rest))"
  by pat_completeness auto
termination
proof (relation "measure (\<lambda>(acc, pending). sum_list (map length pending) + length pending)")
qed (auto simp: bufSize_def intro: readChunk_less_sym)

declare readLine.simps [simp del]

definition ReadString :: "world \<Rightarrow> (string \<times> bool) \<times> world" where
  "ReadString w =
     (case readLine [] (stdin w) of
        (r, rest) \<Rightarrow> (r, w\<lparr>stdin := rest\<rparr>))"

section \<open>The local path resolver\<close>

definition findLocalPath :: "string \<Rightarrow> world \<Rightarrow> (string \<times> error option) \<times> world" where
  "findLocalPath modulePath w =
     (let originalPath = Join [GOPATH w, ''src'', modulePath];
          (found, w1) = os_Stat originalPath w
      in if found then ((originalPath, None), w1)
         else
           let basePath = removeVersionFromPath modulePath;
               notFound = Some (''local copy not found: tried '' @ originalPath @ '' and ''
                                @ Join [GOPATH w, ''src'', basePath])
           in if basePath \<noteq> modulePath
              then (let versionlessPath = Join [GOPATH w, ''src'', basePath];
                        (found2, w2) = os_Stat versionlessPath w1
                    in if found2 then ((versionlessPath, None), w2)
                       else (([], notFound), w2))
              else (([], notFound), w1))"

section \<open>The manifest writer\<close>

text \<open>The directive that \<open>replaceInGoMod\<close> appends: \<open>fmt.Sprintf("\nreplace %s => %s\n", ...)\<close>.\<close>

definition newReplace :: "string \<Rightarrow> string \<Rightarrow> string" where
  "newReplace module localPath = [NL] @ ''replace '' @ module @ '' => '' @ localPath @ [NL]"

definition replaceInGoMod :: "string \<Rightarrow> string \<Rightarrow> world \<Rightarrow> error option \<times> world" where
  "replaceInGoMod module localPath w =
     (case os_ReadFile ''go.mod'' w of
        ((content, Some err), w1) \<Rightarrow> (Some (''failed to read go.mod: '' @ err), w1)
      | ((content, None), w1) \<Rightarrow>
          let tmpFile = ''go.mod.tmp''
          in (case os_WriteFile tmpFile (content @ newReplace module localPath) w1 of
                (Some err, w2) \<Rightarrow> (Some (''failed to write temp file: '' @ err), w2)
              | (None, w2) \<Rightarrow>
                  (case os_Rename tmpFile ''go.mod'' w2 of
                     (Some err, w3) \<Rightarrow> (Some (''failed to rename temp file: '' @ err), w3)
                   | (None, w3) \<Rightarrow> (None, w3))))"

section \<open>Selection, confirmation and the main function\<close>

definition maxInputLen :: nat where
  "maxInputLen = 256"

text \<open>
  \<open>strconv.Atoi\<close>: an optional sign and decimal digits, in the range of a 64-bit
  \<open>int\<close>; \<open>None\<close> is a non-nil error.
\<close>

definition digitsValue :: "string \<Rightarrow> int" where
  "digitsValue ds = foldl (\<lambda>n ch. n * 10 + (int (of_char ch) - 48)) 0 ds"

definition Atoi :: "string \<Rightarrow> int option" where
  "Atoi s =
     (let neg = (s \<noteq> [] \<and> hd s = CHR ''-'');
          ds = (if s \<noteq> [] \<and> (hd s = CHR ''-'' \<or> hd s = CHR ''+'') then tl s else s)
      in if ds = [] \<or> \<not> list_all isDigit ds then None
         else
           let n = (if neg then - digitsValue ds else digitsValue ds)
           in if n < - (2 ^ 63) \<or> 2 ^ 63 \<le> n then None else Some n)"

definition selectDependency :: "string list \<Rightarrow> world \<Rightarrow> (string \<times> error option) \<times> world" where
  "selectDependency matched w =
     (if length matched = 1 then ((matched ! 0, None), w)
      else
        case ReadString w of
          ((input, True), w1) \<Rightarrow> (([], Some ''failed to read input''), w1)
        | ((input, False), w1) \<Rightarrow>
            let input1 = TrimSpace input
            in if length input1 > maxInputLen then (([], Some ''input too long''), w1)
               else
                 (case Atoi input1 of
                    None \<Rightarrow> (([], Some ''invalid selection''), w1)
                  | Some idx \<Rightarrow>
                      if idx < 1 \<or> idx > int (length matched)
                      then (([], Some ''invalid selection''), w1)
                      else ((matched ! nat (idx - 1), None), w1)))"

definition confirmSelection :: "string \<Rightarrow> world \<Rightarrow> bool \<times> world" where
  "confirmSelection selected w =
     (case ReadString w of
        ((confirm, err), w1) \<Rightarrow> (TrimSpace confirm = [], w1))"

text \<open>
  How \<open>main\<close> ends: after printing the usage or the version, with \<open>os.Exit(1)\<close> after
  an error message, with no match, with the operator's refusal, or with the directive
  added.
\<close>

datatype outcome =
    Usage
  | ShowVersion
  | ExitError string
  | NoMatches
  | Canceled
  | Added string string

text \<open>
  The flags \<open>-h\<close>, \<open>-help\<close> and \<open>-version\<close> and the remaining arguments are what
  \<open>flag.Parse\<close> leaves.
\<close>

definition main ::
  "bool \<Rightarrow> bool \<Rightarrow> bool \<Rightarrow> string list \<Rightarrow> world \<Rightarrow> outcome \<times> world" where
  "main showHelp showHelpLong showVersion args w =
     (if showHelp \<or> showHelpLong then (Usage, w)
      else if showVersion then (ShowVersion, w)
      else if length args < 1
        then (ExitError ''missing required argument <partial-package-name>'', w)
      else
        let partialName = args ! 0
        in if length partialName > maxInputLen
           then (ExitError ''input too long (max 256 characters)'', w)
           else
             (case os_ReadFile ''go.mod'' w of
                ((modContent, Some err), w1) \<Rightarrow> (ExitError (''error reading go.mod: '' @ err), w1)
              | ((modContent, None), w1) \<Rightarrow>
                  let (deps, reps) = parseGoMod modContent;
                      matched = filterDependencies deps reps partialName
                  in if length matched = 0 then (NoMatches, w1)
                     else
                       (case selectDependency matched w1 of
                          ((selected, Some err), w2) \<Rightarrow> (ExitError err, w2)
                        | ((selected, None), w2) \<Rightarrow>
                            (case confirmSelection selected w2 of
                               (False, w3) \<Rightarrow> (Canceled, w3)
                             | (True, w3) \<Rightarrow>
                                 (case findLocalPath selected w3 of
                                    ((localPath, Some err), w4) \<Rightarrow> (ExitError err, w4)
                                  | ((localPath, None), w4) \<Rightarrow>
                                      (case replaceInGoMod selected localPath w4 of
                                         (Some err, w5) \<Rightarrow>
                                           (ExitError (''failed to update go.mod: '' @ err), w5)
                                       | (None, w5) \<Rightarrow> (Added selected localPath, w5)))))))"

section \<open>Auxiliary definitions\<close>

text \<open>
  Classes of bytes, used to reason about the encoded spaces: the continuation bytes of
  UTF-8, and an upper bound of the bytes that occur in an encoded space.
\<close>

definition is_cont :: "char \<Rightarrow> bool" where
  "is_cont c = ((128::nat) \<le> of_char c \<and> (of_char c :: nat) < 192)"

definition is_space_byte :: "char \<Rightarrow> bool" where
  "is_space_byte c = ((of_char c :: nat) < 14 \<or> c = CHR '' '' \<or> (128::nat) \<le> of_char c)"

text \<open>
  The require-line parser in the order the specification gives: comment first, then
  \<open>indirect\<close>, then the tokens. It is compared with \<open>parseRequireLine\<close> below.
\<close>

definition parseRequireLine_spec :: "string \<Rightarrow> Dependency option" where
  "parseRequireLine_spec line =
     (let text = (case Index line ''//'' of
                    Some idx \<Rightarrow> TrimSpace (take idx line)
                  | None \<Rightarrow> line)
      in if Contains text ''indirect'' then None
         else
           let parts = Fields text
           in if length parts < 2 then None
              else Some \<lparr>Path = parts ! 0, Version = parts ! 1\<rparr>)"

text \<open>Two environments that differ at most in their standard input and trace.\<close>

definition same_files :: "world \<Rightarrow> world \<Rightarrow> bool" where
  "same_files w w' \<longleftrightarrow>
     names w' = names w \<and> store w' = store w \<and> entries w' = entries w \<and>
     GOPATH w' = GOPATH w \<and> read_fault w' = read_fault w \<and>
     write_fault w' = write_fault w \<and> rename_fault w' = rename_fault w"

text \<open>
  An entry that differs between two directories lies on the way from a name to the file
  \<open>i\<close>, within \<open>n\<close> links.
\<close>

definition changed_on_path ::
  "(string \<rightharpoonup> dirent) \<Rightarrow> (string \<rightharpoonup> dirent) \<Rightarrow> nat \<Rightarrow> nat \<Rightarrow> bool" where
  "changed_on_path ns ns' n i \<longleftrightarrow> (\<exists>a k. ns' a \<noteq> ns a \<and> k \<le> n \<and> resolve k ns a = Found i)"

text \<open>A name that can be opened for writing: it opens a file, or can be created.\<close>

definition writable :: "world \<Rightarrow> string \<Rightarrow> bool" where
  "writable w name \<longleftrightarrow>
     (case resolve maxSymlinks (names w) name of
        Found i \<Rightarrow> i < length (store w)
      | Missing final \<Rightarrow> True
      | Loop \<Rightarrow> False)"

section \<open>Facts about the string functions\<close>

lemma HasPrefix_iff: "HasPrefix s p \<longleftrightarrow> (\<exists>post. s = p @ post)"
proof
  assume "HasPrefix s p"
  then have "s = p @ drop (length p) s"
    by (metis HasPrefix_def append_take_drop_id)
  then show "\<exists>post. s = p @ post" ..
next
  assume "\<exists>post. s = p @ post"
  then show "HasPrefix s p"
    by (auto simp: HasPrefix_def)
qed

lemma HasPrefix_Nil [simp]: "HasPrefix s []"
  by (simp add: HasPrefix_def)

lemma Contains_iff: "Contains s sub \<longleftrightarrow> (\<exists>pre post. s = pre @ sub @ post)"
proof (induction s)
  case Nil
  then show ?case by (simp add: Contains_def)
next
  case (Cons c s)
  show ?case
  proof (cases "HasPrefix (c # s) sub")
    case True
    then obtain post where "c # s = [] @ sub @ post"
      by (auto simp: HasPrefix_iff)
    with True show ?thesis
      unfolding Contains_def by (metis Index.simps(2) option.distinct(1))
  next
    case False
    have "(\<exists>pre post. c # s = pre @ sub @ post) \<longleftrightarrow> (\<exists>pre post. s = pre @ sub @ post)"
    proof
      assume "\<exists>pre post. c # s = pre @ sub @ post"
      then obtain pre post where eq: "c # s = pre @ sub @ post" by blast
      show "\<exists>pre post. s = pre @ sub @ post"
      proof (cases pre)
        case Nil
        with eq False show ?thesis by (simp add: HasPrefix_iff)
      next
        case (Cons a pre')
        with eq have "s = pre' @ sub @ post" by simp
        then show ?thesis by blast
      qed
    next
      assume "\<exists>pre post. s = pre @ sub @ post"
      then obtain pre post where "s = pre @ sub @ post" by blast
      then have "c # s = (c # pre) @ sub @ post" by simp
      then show "\<exists>pre post. c # s = pre @ sub @ post" by blast
    qed
    with False Cons.IH show ?thesis
      by (simp add: Contains_def)
  qed
qed

lemma Contains_Nil [simp]: "Contains s []"
proof -
  have "s = [] @ [] @ s" by simp
  then show ?thesis unfolding Contains_iff by blast
qed

lemma HasPrefix_Cons [simp]: "HasPrefix (c # s) (d # p) \<longleftrightarrow> c = d \<and> HasPrefix s p"
  by (auto simp: HasPrefix_def)

lemma HasPrefix_Nil_left [simp]: "HasPrefix [] p \<longleftrightarrow> p = []"
  by (auto simp: HasPrefix_def)

lemma HasSuffix_iff: "HasSuffix s p \<longleftrightarrow> (\<exists>pre. s = pre @ p)"
proof
  assume "HasSuffix s p"
  then have "s = take (length s - length p) s @ p"
    by (metis HasSuffix_def append_take_drop_id)
  then show "\<exists>pre. s = pre @ p" ..
next
  assume "\<exists>pre. s = pre @ p"
  then show "HasSuffix s p"
    by (auto simp: HasSuffix_def)
qed

lemma HasSuffix_rev: "HasSuffix s p \<longleftrightarrow> HasPrefix (rev s) (rev p)"
proof -
  have "(\<exists>pre. s = pre @ p) \<longleftrightarrow> (\<exists>post. rev s = rev p @ post)"
  proof
    assume "\<exists>pre. s = pre @ p"
    then obtain pre where "s = pre @ p" ..
    then have "rev s = rev p @ rev pre" by simp
    then show "\<exists>post. rev s = rev p @ post" ..
  next
    assume "\<exists>post. rev s = rev p @ post"
    then obtain post where "rev s = rev p @ post" ..
    then have "rev (rev s) = rev (rev p @ post)" by simp
    then have "s = rev post @ p" by simp
    then show "\<exists>pre. s = pre @ p" ..
  qed
  then show ?thesis by (simp add: HasSuffix_iff HasPrefix_iff)
qed

lemma space_seqs_tail: "q \<in> set space_seqs \<Longrightarrow> c \<in> set (tl q) \<Longrightarrow> is_cont c"
proof -
  have "list_all (\<lambda>q. list_all is_cont (tl q)) space_seqs"
    by code_simp
  then show "q \<in> set space_seqs \<Longrightarrow> c \<in> set (tl q) \<Longrightarrow> is_cont c"
    by (simp add: list_all_iff)
qed

lemma space_seqs_head: "q \<in> set space_seqs \<Longrightarrow> \<not> is_cont (hd q)"
proof -
  have "list_all (\<lambda>q. \<not> is_cont (hd q)) space_seqs"
    by code_simp
  then show "q \<in> set space_seqs \<Longrightarrow> \<not> is_cont (hd q)"
    by (simp add: list_all_iff)
qed

lemma space_seqs_bytes: "q \<in> set space_seqs \<Longrightarrow> c \<in> set q \<Longrightarrow> is_space_byte c"
proof -
  have "list_all (list_all is_space_byte) space_seqs"
    by code_simp
  then show "q \<in> set space_seqs \<Longrightarrow> c \<in> set q \<Longrightarrow> is_space_byte c"
    by (simp add: list_all_iff)
qed

lemma space_prefix_self: "q \<in> set space_seqs \<Longrightarrow> space_prefix q = Some q"
proof -
  have "list_all (\<lambda>q. space_prefix q = Some q) space_seqs"
    by code_simp
  then show "q \<in> set space_seqs \<Longrightarrow> space_prefix q = Some q"
    by (simp add: list_all_iff)
qed

subsection \<open>Trimming and fields\<close>

lemma space_prefix_Nil [simp]: "space_prefix [] = None"
proof (rule ccontr)
  assume "space_prefix [] \<noteq> None"
  then obtain q where q: "space_prefix [] = Some q" by blast
  from space_prefix_Some(2) [OF q] space_prefix_Some(3) [OF q] show False
    by simp
qed

lemma space_prefix_split: "space_prefix s = Some q \<Longrightarrow> s = q @ drop (length q) s"
  by (metis HasPrefix_def append_take_drop_id space_prefix_Some(2))

lemma space_suffix_split: "space_suffix s = Some q \<Longrightarrow> s = take (length s - length q) s @ q"
  by (metis HasSuffix_def append_take_drop_id space_suffix_Some(2))

lemma HasPrefix_append_noncont:
  assumes "s \<noteq> []" and "\<not> is_cont c" and "p \<in> set space_seqs"
  shows "HasPrefix (s @ c # t) p \<longleftrightarrow> HasPrefix s p"
proof
  assume "HasPrefix s p"
  then show "HasPrefix (s @ c # t) p"
    by (auto simp: HasPrefix_iff)
next
  assume "HasPrefix (s @ c # t) p"
  then obtain post where eq: "s @ c # t = p @ post"
    by (auto simp: HasPrefix_iff)
  then consider (short) u where "s = p @ u" | (long) u where "p = s @ c # u"
    by (auto simp: append_eq_append_conv2 Cons_eq_append_conv)
  then show "HasPrefix s p"
  proof cases
    case short
    then show ?thesis by (auto simp: HasPrefix_iff)
  next
    case long
    with \<open>s \<noteq> []\<close> have "c \<in> set (tl p)"
      by (cases s) auto
    with assms(3) have "is_cont c" by (rule space_seqs_tail)
    with assms(2) show ?thesis by simp
  qed
qed

lemma space_prefix_append_noncont:
  assumes "s \<noteq> []" and "\<not> is_cont c"
  shows "space_prefix (s @ c # t) = space_prefix s"
  unfolding space_prefix_def
  by (rule find_cong) (simp_all add: HasPrefix_append_noncont assms)

lemma fieldsFrom_append_space:
  assumes "q \<in> set space_seqs"
  shows "fieldsFrom cur (s @ q) = fieldsFrom cur s"
proof (induction cur s rule: fieldsFrom.induct)
  case (1 cur s)
  have "q \<noteq> []" and "\<not> is_cont (hd q)"
    using assms by (simp_all add: space_seqs_nonempty space_seqs_head)
  then obtain c t where q: "q = c # t" and c: "\<not> is_cont c"
    by (cases q) auto
  show ?case
  proof (cases "s = []")
    case True
    from assms have "space_prefix q = Some q" by (rule space_prefix_self)
    with True q show ?thesis
      by (simp add: fieldsFrom.simps [of cur "c # t"] fieldsFrom.simps [of cur "[]"]
          fieldsFrom.simps [of "[]" "[]"])
  next
    case False
    have sp: "space_prefix (s @ q) = space_prefix s"
      unfolding q using False c by (rule space_prefix_append_noncont)
    show ?thesis
    proof (cases "space_prefix s")
      case None
      with False sp 1(1) [OF False None] show ?thesis
        by (simp add: fieldsFrom.simps [of cur "s @ q"] fieldsFrom.simps [of cur s])
    next
      case (Some p)
      then have "length p \<le> length s"
        by (metis HasPrefix_def space_prefix_Some(2))
      with False sp Some 1(2) [OF False Some] show ?thesis
        by (simp add: fieldsFrom.simps [of cur "s @ q"] fieldsFrom.simps [of cur s])
    qed
  qed
qed

lemma fieldsFrom_TrimRightSpace: "fieldsFrom cur (TrimRightSpace s) = fieldsFrom cur s"
proof (induction s rule: TrimRightSpace.induct)
  case (1 s)
  show ?case
  proof (cases "space_suffix s")
    case None
    then show ?thesis by (simp add: TrimRightSpace.simps [of s])
  next
    case (Some q)
    define s' where "s' = take (length s - length q) s"
    from Some have q: "q \<in> set space_seqs" and s: "s = s' @ q"
      unfolding s'_def by (simp_all add: space_suffix_Some space_suffix_split)
    from q have "fieldsFrom cur (s' @ q) = fieldsFrom cur s'"
      by (rule fieldsFrom_append_space)
    with s have "fieldsFrom cur s = fieldsFrom cur s'"
      by simp
    moreover from Some have "TrimRightSpace s = TrimRightSpace s'"
      unfolding s'_def by (simp add: TrimRightSpace.simps [of s])
    moreover from 1 [OF Some] have "fieldsFrom cur (TrimRightSpace s') = fieldsFrom cur s'"
      unfolding s'_def .
    ultimately show ?thesis by simp
  qed
qed

lemma Fields_TrimLeftSpace: "Fields (TrimLeftSpace s) = Fields s"
proof (induction s rule: TrimLeftSpace.induct)
  case (1 s)
  show ?case
  proof (cases "space_prefix s")
    case None
    then show ?thesis by (simp add: TrimLeftSpace.simps [of s])
  next
    case (Some q)
    then have "s \<noteq> []" by (cases s) auto
    with Some have "Fields s = Fields (drop (length q) s)"
      by (simp add: Fields_def fieldsFrom.simps [of "[]" s])
    with Some 1 [OF Some] show ?thesis
      by (simp add: TrimLeftSpace.simps [of s])
  qed
qed

lemma Fields_TrimSpace: "Fields (TrimSpace s) = Fields s"
  by (simp add: TrimSpace_def Fields_def fieldsFrom_TrimRightSpace
      Fields_TrimLeftSpace [unfolded Fields_def])

lemma Contains_Cons: "Contains (c # s) sub \<longleftrightarrow> HasPrefix (c # s) sub \<or> Contains s sub"
  by (simp add: Contains_def)

lemma Contains_drop_head:
  assumes "Contains (p @ s) sub" and "sub \<noteq> []" and "hd sub \<notin> set p"
  shows "Contains s sub"
  using assms
proof (induction p)
  case Nil
  then show ?case by simp
next
  case (Cons c p)
  from Cons.prems(2,3) have "\<not> HasPrefix (c # p @ s) sub"
    by (cases sub) auto
  with Cons.prems(1) have "Contains (p @ s) sub"
    by (simp add: Contains_Cons)
  with Cons show ?case by simp
qed

lemma Contains_rev: "Contains (rev s) (rev sub) \<longleftrightarrow> Contains s sub"
proof -
  have "(\<exists>pre post. rev s = pre @ rev sub @ post) \<longleftrightarrow> (\<exists>pre post. s = pre @ sub @ post)"
  proof
    assume "\<exists>pre post. rev s = pre @ rev sub @ post"
    then obtain pre post where "rev s = pre @ rev sub @ post" by blast
    then have "rev (rev s) = rev (pre @ rev sub @ post)" by simp
    then have "s = rev post @ sub @ rev pre" by simp
    then show "\<exists>pre post. s = pre @ sub @ post" by blast
  next
    assume "\<exists>pre post. s = pre @ sub @ post"
    then obtain pre post where "s = pre @ sub @ post" by blast
    then have "rev s = rev post @ rev sub @ rev pre" by simp
    then show "\<exists>pre post. rev s = pre @ rev sub @ post" by blast
  qed
  then show ?thesis by (simp add: Contains_iff)
qed

lemma Contains_drop_last:
  assumes "Contains (s @ p) sub" and "sub \<noteq> []" and "last sub \<notin> set p"
  shows "Contains s sub"
proof -
  from assms(1) have "Contains (rev p @ rev s) (rev sub)"
    using Contains_rev [of "s @ p" sub] by simp
  moreover from assms(2,3) have "rev sub \<noteq> []" and "hd (rev sub) \<notin> set (rev p)"
    by (simp_all add: hd_rev)
  ultimately have "Contains (rev s) (rev sub)"
    by (rule Contains_drop_head)
  then show ?thesis by (simp add: Contains_rev)
qed

lemma space_seqs_no_letter:
  assumes "q \<in> set space_seqs" and "\<not> is_space_byte c"
  shows "c \<notin> set q"
  using assms space_seqs_bytes by blast

lemma not_space_i [simp]: "\<not> is_space_byte CHR ''i''"
  by (simp add: is_space_byte_def)

lemma not_space_t [simp]: "\<not> is_space_byte CHR ''t''"
  by (simp add: is_space_byte_def)

lemma Contains_TrimLeftSpace:
  assumes "sub \<noteq> []" and "\<not> is_space_byte (hd sub)"
  shows "Contains s sub \<Longrightarrow> Contains (TrimLeftSpace s) sub"
proof (induction s rule: TrimLeftSpace.induct)
  case (1 s)
  show ?case
  proof (cases "space_prefix s")
    case None
    with 1(2) show ?thesis by (simp add: TrimLeftSpace.simps [of s])
  next
    case (Some q)
    then have q: "q \<in> set space_seqs" and s: "s = q @ drop (length q) s"
      by (simp_all add: space_prefix_Some space_prefix_split)
    from q assms(2) have "hd sub \<notin> set q" by (rule space_seqs_no_letter)
    with 1(2) s assms(1) have "Contains (drop (length q) s) sub"
      by (metis Contains_drop_head)
    with Some 1(1) [OF Some] show ?thesis
      by (simp add: TrimLeftSpace.simps [of s])
  qed
qed

lemma Contains_TrimRightSpace:
  assumes "sub \<noteq> []" and "\<not> is_space_byte (last sub)"
  shows "Contains s sub \<Longrightarrow> Contains (TrimRightSpace s) sub"
proof (induction s rule: TrimRightSpace.induct)
  case (1 s)
  show ?case
  proof (cases "space_suffix s")
    case None
    with 1(2) show ?thesis by (simp add: TrimRightSpace.simps [of s])
  next
    case (Some q)
    then have q: "q \<in> set space_seqs" and s: "s = take (length s - length q) s @ q"
      by (simp_all add: space_suffix_Some space_suffix_split)
    from q assms(2) have "last sub \<notin> set q" by (rule space_seqs_no_letter)
    with 1(2) s assms(1) have "Contains (take (length s - length q) s) sub"
      by (metis Contains_drop_last)
    with Some 1(1) [OF Some] show ?thesis
      by (simp add: TrimRightSpace.simps [of s])
  qed
qed

lemma Contains_indirect_TrimSpace:
  "Contains raw ''indirect'' \<Longrightarrow> Contains (TrimSpace raw) ''indirect''"
  by (simp add: TrimSpace_def Contains_TrimLeftSpace Contains_TrimRightSpace)

lemma Contains_indirect_TrimPrefix:
  assumes "Contains line ''indirect''"
  shows "Contains (TrimPrefix line ''require '') ''indirect''"
proof (cases "HasPrefix line ''require ''")
  case True
  then obtain rest where "line = ''require '' @ rest"
    by (auto simp: HasPrefix_iff)
  with assms True show ?thesis
    by (simp add: TrimPrefix_def Contains_Cons)
next
  case False
  with assms show ?thesis by (simp add: TrimPrefix_def)
qed

lemma parseRequireLine_indirect: "Contains line ''indirect'' \<Longrightarrow> parseRequireLine line = None"
  by (simp add: parseRequireLine_def)

lemma addRequire_indirect:
  "Contains line ''indirect'' \<Longrightarrow> addRequire st line = st"
  by (simp add: addRequire_def parseRequireLine_indirect)

lemma parseLine_indirect:
  assumes "Contains raw ''indirect''"
  shows "dependencies (parseLine st raw) = dependencies st"
proof -
  from assms have 1: "Contains (TrimSpace raw) ''indirect''"
    by (rule Contains_indirect_TrimSpace)
  then have 2: "Contains (TrimPrefix (TrimSpace raw) ''require '') ''indirect''"
    by (rule Contains_indirect_TrimPrefix)
  from 1 2 show ?thesis
    by (simp add: parseLine_def Let_def addRequire_indirect)
qed

lemma parseLine_dependency_origin:
  assumes "d \<in> set (dependencies (parseLine st raw))"
  shows "d \<in> set (dependencies st) \<or>
         (\<not> Contains raw ''indirect'' \<and>
          (parseRequireLine (TrimSpace raw) = Some d \<or>
           parseRequireLine (TrimPrefix (TrimSpace raw) ''require '') = Some d))"
proof (cases "Contains raw ''indirect''")
  case True
  with assms show ?thesis by (simp add: parseLine_indirect)
next
  case False
  with assms show ?thesis
    by (auto simp: parseLine_def Let_def addRequire_def split: if_splits option.splits)
qed

lemma foldl_parseLine_dependency_origin:
  assumes "d \<in> set (dependencies (foldl parseLine st ls))"
  shows "d \<in> set (dependencies st) \<or>
         (\<exists>raw \<in> set ls. \<not> Contains raw ''indirect'' \<and>
          (parseRequireLine (TrimSpace raw) = Some d \<or>
           parseRequireLine (TrimPrefix (TrimSpace raw) ''require '') = Some d))"
  using assms
proof (induction ls arbitrary: st)
  case Nil
  then show ?case by simp
next
  case (Cons raw ls)
  from Cons.prems have "d \<in> set (dependencies (foldl parseLine (parseLine st raw) ls))"
    by simp
  from Cons.IH [OF this] parseLine_dependency_origin [of d st raw] show ?case
    by auto
qed

lemma parseLines_snoc: "parseLines (ls @ [raw]) = parseLine (parseLines ls) raw"
  by (simp add: parseLines_def)

section \<open>Facts about the filter\<close>

lemma filter_foldl:
  "foldl (filterStep reps p) acc deps =
     acc @ map Path (filter (\<lambda>d. \<not> lookup reps (Path d) \<and> Contains (Path d) p) deps)"
  by (induction deps arbitrary: acc) (simp_all add: filterStep_def)

lemma filterDependencies_eq:
  "filterDependencies deps reps p =
     map Path (filter (\<lambda>d. \<not> lookup reps (Path d) \<and> Contains (Path d) p) deps)"
  by (simp add: filterDependencies_def filter_foldl)

section \<open>Facts about the replace directive\<close>

lemma Contains_single: "Contains s [c] \<longleftrightarrow> c \<in> set s"
  by (induction s) (auto simp: Contains_Cons Contains_def)

lemma HasPrefix_longer:
  assumes "HasPrefix (x @ y) sub" and "length sub \<le> length x"
  shows "HasPrefix x sub"
proof -
  from assms(1) have "take (length sub) (x @ y) = sub"
    by (simp add: HasPrefix_def)
  with assms(2) have "take (length sub) x = sub"
    by simp
  with assms(2) show ?thesis
    by (simp add: HasPrefix_def)
qed

lemma Index_first:
  assumes "sub \<noteq> []" and "\<not> Contains (pre @ butlast sub) sub"
  shows "Index (pre @ sub @ post) sub = Some (length pre)"
  using assms(2)
proof (induction pre)
  case Nil
  from assms(1) obtain c t where ct: "sub @ post = c # t"
    by (cases sub) auto
  have "HasPrefix (sub @ post) sub"
    unfolding HasPrefix_iff by blast
  then have "Index (c # t) sub = Some 0"
    unfolding ct by simp
  then show ?case
    using ct by simp
next
  case (Cons c pre)
  have split: "c # pre @ sub @ post = ((c # pre) @ butlast sub) @ (last sub # post)"
    using assms(1) by simp
  have len: "length sub \<le> length ((c # pre) @ butlast sub)"
    by simp
  have "\<not> HasPrefix (c # pre @ sub @ post) sub"
  proof
    assume "HasPrefix (c # pre @ sub @ post) sub"
    then have "HasPrefix (((c # pre) @ butlast sub) @ (last sub # post)) sub"
      unfolding split .
    then have "HasPrefix ((c # pre) @ butlast sub) sub"
      using len by (rule HasPrefix_longer)
    then have "Contains ((c # pre) @ butlast sub) sub"
      by (simp add: Contains_Cons)
    with Cons.prems show False by simp
  qed
  moreover from Cons.prems have "\<not> Contains (pre @ butlast sub) sub"
    by (simp add: Contains_Cons)
  ultimately show ?case
    using Cons.IH by simp
qed

lemma Split_first:
  assumes "sub \<noteq> []" and "\<not> Contains (pre @ butlast sub) sub"
  shows "Split (pre @ sub @ post) sub = pre # Split post sub"
  using assms Index_first [OF assms, of post]
  by (simp add: Split.simps [of "pre @ sub @ post"])

lemma Split_none: "sub \<noteq> [] \<Longrightarrow> \<not> Contains s sub \<Longrightarrow> Split s sub = [s]"
  by (simp add: Split.simps [of s] Contains_def)

lemma Split_not_Nil: "sep \<noteq> [] \<Longrightarrow> Split s sep \<noteq> []"
  by (simp add: Split.simps [of s] split: option.split)

lemma Split_char_first: "c \<notin> set pre \<Longrightarrow> Split (pre @ c # post) [c] = pre # Split post [c]"
  using Split_first [of "[c]" pre post] by (simp add: Contains_single)

lemma Split_char_none: "c \<notin> set s \<Longrightarrow> Split s [c] = [s]"
  by (simp add: Split_none Contains_single)

lemma Split_char_append: "Split (a @ c # b) [c] = Split a [c] @ Split b [c]"
proof (induction "length a" arbitrary: a rule: less_induct)
  case less
  show ?case
  proof (cases "c \<in> set a")
    case False
    then show ?thesis by (simp add: Split_char_first Split_char_none)
  next
    case True
    then obtain pre post where a: "a = pre @ c # post" and pre: "c \<notin> set pre"
      by (auto dest: split_list_first)
    then have "length post < length a" by simp
    then have "Split (post @ c # b) [c] = Split post [c] @ Split b [c]"
      by (rule less)
    with a pre show ?thesis
      using Split_char_first [of c pre "post @ c # b"] by (simp add: Split_char_first)
  qed
qed

lemma space_prefix_nonspace: "\<not> is_space_byte c \<Longrightarrow> space_prefix (c # s) = None"
proof (rule ccontr)
  assume c: "\<not> is_space_byte c" and "space_prefix (c # s) \<noteq> None"
  then obtain q where q: "space_prefix (c # s) = Some q" by blast
  from space_prefix_Some(2) [OF q] space_prefix_Some(3) [OF q] have "c \<in> set q"
    by (cases q) auto
  with space_prefix_Some(1) [OF q] have "is_space_byte c"
    by (rule space_seqs_bytes)
  with c show False by simp
qed

lemma TrimLeftSpace_nonspace: "\<not> is_space_byte c \<Longrightarrow> TrimLeftSpace (c # s) = c # s"
  by (simp add: TrimLeftSpace.simps [of "c # s"] space_prefix_nonspace)

lemma TrimRightSpace_keeps:
  assumes "Q \<noteq> []" and "\<not> is_space_byte (last Q)"
  shows "\<exists>X'. TrimRightSpace (Q @ X) = Q @ X'"
proof (induction "length X" arbitrary: X rule: less_induct)
  case less
  show ?case
  proof (cases "space_suffix (Q @ X)")
    case None
    then show ?thesis by (simp add: TrimRightSpace.simps [of "Q @ X"])
  next
    case (Some q)
    note q = space_suffix_Some [OF Some]
    from q(2) obtain pre where pre: "Q @ X = pre @ q"
      by (auto simp: HasSuffix_iff)
    have "\<exists>u. X = u @ q"
    proof (rule ccontr)
      assume "\<not> (\<exists>u. X = u @ q)"
      with pre obtain u where "Q = pre @ u" and "u \<noteq> []" and "q = u @ X"
        by (auto simp: append_eq_append_conv2)
      with assms(1) have "last Q \<in> set q"
        by auto
      with q(1) have "is_space_byte (last Q)"
        by (rule space_seqs_bytes)
      with assms(2) show False by simp
    qed
    then obtain u where u: "X = u @ q" by blast
    with q(3) have "length u < length X" by simp
    then obtain X' where "TrimRightSpace (Q @ u) = Q @ X'"
      using less by blast
    moreover from u have "take (length (Q @ X) - length q) (Q @ X) = Q @ u"
      by simp
    ultimately show ?thesis
      using Some by (simp add: TrimRightSpace.simps [of "Q @ X"])
  qed
qed

lemma length_TrimLeftSpace: "length (TrimLeftSpace s) \<le> length s"
proof (induction s rule: TrimLeftSpace.induct)
  case (1 s)
  show ?case
  proof (cases "space_prefix s")
    case None
    then show ?thesis by (simp add: TrimLeftSpace.simps [of s])
  next
    case (Some q)
    with 1 [OF Some] show ?thesis
      by (simp add: TrimLeftSpace.simps [of s])
  qed
qed

lemma length_TrimRightSpace: "length (TrimRightSpace s) \<le> length s"
proof (induction s rule: TrimRightSpace.induct)
  case (1 s)
  show ?case
  proof (cases "space_suffix s")
    case None
    then show ?thesis by (simp add: TrimRightSpace.simps [of s])
  next
    case (Some q)
    with 1 [OF Some] show ?thesis
      by (simp add: TrimRightSpace.simps [of s])
  qed
qed

lemma TrimLeftSpace_shorter:
  assumes "space_prefix s = Some q"
  shows "length (TrimLeftSpace s) < length s"
proof -
  from assms have "TrimLeftSpace s = TrimLeftSpace (drop (length q) s)"
    by (simp add: TrimLeftSpace.simps [of s])
  with length_TrimLeftSpace [of "drop (length q) s"]
  have "length (TrimLeftSpace s) \<le> length s - length q"
    by simp
  moreover from space_prefix_Some(2) [OF assms] have "length q \<le> length s"
    by (simp add: HasPrefix_def)
  moreover from space_prefix_Some(3) [OF assms] obtain c t where "q = c # t"
    by (cases q) auto
  ultimately show ?thesis by simp
qed

lemma TrimLeftSpace_fixed: "TrimLeftSpace s = s \<longleftrightarrow> space_prefix s = None"
proof
  assume fixed: "TrimLeftSpace s = s"
  show "space_prefix s = None"
  proof (rule ccontr)
    assume "space_prefix s \<noteq> None"
    then obtain q where "space_prefix s = Some q" by blast
    then have "length (TrimLeftSpace s) < length s"
      by (rule TrimLeftSpace_shorter)
    with fixed show False by simp
  qed
next
  assume "space_prefix s = None"
  then show "TrimLeftSpace s = s"
    by (simp add: TrimLeftSpace.simps [of s])
qed

lemma TrimSpace_fixed:
  assumes "TrimSpace s = s"
  shows "TrimLeftSpace s = s" and "TrimRightSpace s = s"
proof -
  from assms have "length s \<le> length (TrimLeftSpace s)"
    using length_TrimRightSpace [of "TrimLeftSpace s"] by (simp add: TrimSpace_def)
  then have "space_prefix s = None"
    using TrimLeftSpace_shorter [of s] by (cases "space_prefix s") auto
  then show "TrimLeftSpace s = s"
    by (simp add: TrimLeftSpace_fixed)
  with assms show "TrimRightSpace s = s"
    by (simp add: TrimSpace_def)
qed

lemma not_cont_space [simp]: "\<not> is_cont CHR '' ''"
  by (simp add: is_cont_def)

lemma space_suffix_snoc_space: "space_suffix (s @ '' '') = Some '' ''"
  by (simp add: space_suffix_def space_seqs_def HasSuffix_rev)

lemma TrimSpace_snoc_space:
  assumes "M \<noteq> []" and "TrimSpace M = M"
  shows "TrimSpace (M @ '' '') = M"
proof -
  note fixed = TrimSpace_fixed [OF assms(2)]
  from fixed(1) have "space_prefix M = None"
    by (simp add: TrimLeftSpace_fixed)
  with assms(1) have "space_prefix (M @ CHR '' '' # []) = None"
    by (simp add: space_prefix_append_noncont)
  then have "TrimLeftSpace (M @ '' '') = M @ '' ''"
    by (simp add: TrimLeftSpace_fixed)
  moreover have "TrimRightSpace (M @ '' '') = TrimRightSpace M"
    by (simp add: TrimRightSpace.simps [of "M @ '' ''"] space_suffix_snoc_space)
  ultimately show ?thesis
    using fixed(2) by (simp add: TrimSpace_def)
qed

lemma Contains_snoc: "Contains (s @ [c]) sub \<longleftrightarrow> HasSuffix (s @ [c]) sub \<or> Contains s sub"
proof -
  have "Contains (s @ [c]) sub \<longleftrightarrow> Contains (c # rev s) (rev sub)"
    using Contains_rev [of "s @ [c]" sub] by simp
  also have "\<dots> \<longleftrightarrow> HasPrefix (c # rev s) (rev sub) \<or> Contains (rev s) (rev sub)"
    by (rule Contains_Cons)
  also have "\<dots> \<longleftrightarrow> HasSuffix (s @ [c]) sub \<or> Contains s sub"
    by (simp add: HasSuffix_rev Contains_rev)
  finally show ?thesis .
qed

lemma no_arrow_in_prefix:
  assumes "\<not> Contains M ''=>''"
  shows "\<not> Contains ((''replace '' @ M @ '' '') @ ''='') ''=>''"
proof -
  from assms have "\<not> Contains (M @ '' '') ''=>''"
    by (simp add: Contains_snoc HasSuffix_rev)
  then have "\<not> Contains ((M @ '' '') @ ''='') ''=>''"
    by (simp only: Contains_snoc) (simp add: HasSuffix_rev)
  then show ?thesis
    by (simp add: Contains_Cons)
qed

lemma not_space_r [simp]: "\<not> is_space_byte CHR ''r''"
  by (simp add: is_space_byte_def)

lemma not_space_gt [simp]: "\<not> is_space_byte CHR ''>''"
  by (simp add: is_space_byte_def)

lemma replace_line_extract:
  assumes "M \<noteq> []" and "TrimSpace M = M" and "\<not> Contains M ''=>''"
  shows "HasPrefix (TrimSpace (''replace '' @ M @ '' => '' @ X)) ''replace ''"
    and "extractReplacePath (TrimSpace (''replace '' @ M @ '' => '' @ X)) = M"
proof -
  define line where "line = TrimSpace (''replace '' @ M @ '' => '' @ X)"
  have "TrimLeftSpace (''replace '' @ M @ '' => '' @ X) = ''replace '' @ M @ '' => '' @ X"
    by (simp add: TrimLeftSpace_nonspace)
  then have "line = TrimRightSpace ((''replace '' @ M @ '' =>'') @ ('' '' @ X))"
    by (simp add: line_def TrimSpace_def)
  moreover have "\<exists>X'. TrimRightSpace ((''replace '' @ M @ '' =>'') @ ('' '' @ X))
                  = (''replace '' @ M @ '' =>'') @ X'"
    by (rule TrimRightSpace_keeps) simp_all
  ultimately obtain X' where line: "line = (''replace '' @ M @ '' '') @ ''=>'' @ X'"
    by auto
  then show "HasPrefix (TrimSpace (''replace '' @ M @ '' => '' @ X)) ''replace ''"
    unfolding line_def [symmetric] by simp
  have "Split line ''=>'' = (''replace '' @ M @ '' '') # Split X' ''=>''"
    unfolding line using no_arrow_in_prefix [OF assms(3)]
    by (intro Split_first) simp_all
  moreover have "Split X' ''=>'' \<noteq> []"
    by (simp add: Split_not_Nil)
  ultimately have "extractReplacePath line = TrimSpace (TrimPrefix (''replace '' @ M @ '' '') ''replace '')"
    by (cases "Split X' ''=>''") (simp_all add: extractReplacePath_def)
  also have "\<dots> = TrimSpace (M @ '' '')"
    by (simp add: TrimPrefix_def)
  also have "\<dots> = M"
    using assms(1,2) by (rule TrimSpace_snoc_space)
  finally show "extractReplacePath (TrimSpace (''replace '' @ M @ '' => '' @ X)) = M"
    unfolding line_def [symmetric] .
qed

subsection \<open>The loop of the parser\<close>

lemma replaces_addRequire [simp]: "replaces (addRequire st l) = replaces st"
  by (simp add: addRequire_def split: option.split)

lemma parseLine_replaces:
  "replaces (parseLine st raw) = replaces st \<or>
   (\<exists>path. replaces (parseLine st raw) = (replaces st)(path \<mapsto> True))"
  by (auto simp: parseLine_def Let_def)

lemma parseLine_replaces_mono:
  assumes "lookup (replaces st) k"
  shows "lookup (replaces (parseLine st raw)) k"
  using parseLine_replaces [of st raw] assms
  by (auto simp: lookup_def)

lemma foldl_parseLine_replaces_mono:
  "lookup (replaces st) k \<Longrightarrow> lookup (replaces (foldl parseLine st ls)) k"
  by (induction ls arbitrary: st) (simp_all add: parseLine_replaces_mono)

lemma parseLine_replace_line:
  assumes "\<not> inRequire st" and "HasPrefix (TrimSpace raw) ''replace ''"
    and "extractReplacePath (TrimSpace raw) \<noteq> []"
  shows "lookup (replaces (parseLine st raw)) (extractReplacePath (TrimSpace raw))"
proof -
  from assms(2) obtain rest where "TrimSpace raw = ''replace '' @ rest"
    by (auto simp: HasPrefix_iff)
  then have "TrimSpace raw \<noteq> []" and "\<not> HasPrefix (TrimSpace raw) ''require (''"
    and "\<not> HasPrefix (TrimSpace raw) ''require ''"
    by simp_all
  with assms show ?thesis
    by (simp add: parseLine_def Let_def lookup_def)
qed

lemma parseLines_replace_line:
  assumes "\<not> inRequire (parseLines before)" and "HasPrefix (TrimSpace raw) ''replace ''"
    and "extractReplacePath (TrimSpace raw) \<noteq> []"
  shows "lookup (replaces (parseLines (before @ raw # after))) (extractReplacePath (TrimSpace raw))"
proof -
  have "parseLines (before @ raw # after)
        = foldl parseLine (parseLine (parseLines before) raw) after"
    by (simp add: parseLines_def)
  with parseLine_replace_line [OF assms] show ?thesis
    by (simp add: foldl_parseLine_replaces_mono)
qed

lemma filterDependencies_excludes:
  "lookup reps k \<Longrightarrow> k \<notin> set (filterDependencies deps reps p)"
  by (auto simp: filterDependencies_eq)

lemma until_newline: "\<exists>post. L @ [NL] = takeWhile (\<lambda>c. c \<noteq> NL) L @ NL # post"
proof (cases "dropWhile (\<lambda>c. c \<noteq> NL) L")
  case Nil
  then have "takeWhile (\<lambda>c. c \<noteq> NL) L = L"
    by (metis append_Nil2 takeWhile_dropWhile_id)
  then have "L @ [NL] = takeWhile (\<lambda>c. c \<noteq> NL) L @ NL # []"
    by (simp only:)
  then show ?thesis ..
next
  case (Cons c r)
  then have "c = NL"
    using hd_dropWhile [of "\<lambda>c. c \<noteq> NL" L] by auto
  with Cons have "L = takeWhile (\<lambda>c. c \<noteq> NL) L @ NL # r"
    by (metis takeWhile_dropWhile_id)
  then have "L @ [NL] = takeWhile (\<lambda>c. c \<noteq> NL) L @ NL # (r @ [NL])"
    by (metis append_Cons append_assoc)
  then show ?thesis ..
qed

section \<open>Facts about the environment\<close>

subsection \<open>Following links\<close>

lemma resolve_mono:
  "resolve n ns x = Found i \<Longrightarrow> n \<le> m \<Longrightarrow> resolve m ns x = Found i"
proof (induction n arbitrary: x m)
  case 0
  then show ?case
    by (cases m) (auto split: option.splits dirent.splits)
next
  case (Suc n)
  then obtain m' where m: "m = Suc m'" and le: "n \<le> m'"
    by (cases m) auto
  show ?case
  proof (cases "ns x")
    case None
    with Suc.prems show ?thesis by simp
  next
    case (Some e)
    show ?thesis
    proof (cases e)
      case (Hard j)
      with Some Suc.prems m show ?thesis by simp
    next
      case (Sym t)
      with Some Suc.prems have "resolve n ns t = Found i" by simp
      from Suc.IH [OF this le] Some Sym m show ?thesis by simp
    qed
  qed
qed

lemma resolve_Missing_None: "resolve n ns x = Missing final \<Longrightarrow> ns final = None"
  by (induction n arbitrary: x) (auto split: option.splits dirent.splits)

lemma resolve_add_missing:
  "resolve n ns x = Found j \<Longrightarrow> ns final = None \<Longrightarrow> resolve n (ns(final \<mapsto> e)) x = Found j"
  by (induction n arbitrary: x) (auto split: option.splits dirent.splits)

lemma resolve_create:
  "resolve n ns x = Missing final \<Longrightarrow> resolve n (ns(final \<mapsto> Hard i)) x = Found i"
  by (induction n arbitrary: x) (auto split: option.splits dirent.splits)

lemma changed_on_pathI:
  "ns' a \<noteq> ns a \<Longrightarrow> k \<le> n \<Longrightarrow> resolve k ns a = Found i \<Longrightarrow> changed_on_path ns ns' n i"
  unfolding changed_on_path_def by (intro exI [of _ a] exI [of _ k]) simp

lemma changed_on_path_Suc: "changed_on_path ns ns' n i \<Longrightarrow> changed_on_path ns ns' (Suc n) i"
  unfolding changed_on_path_def
  by (elim exE conjE) (rule_tac x = a in exI, rule_tac x = k in exI, simp)

lemma resolve_change:
  assumes "resolve n ns x = Found i"
  shows "resolve n ns' x = Found i \<or> changed_on_path ns ns' n i"
  using assms
proof (induction n arbitrary: x)
  case 0
  show ?case
  proof (cases "ns' x = ns x")
    case True
    with 0 show ?thesis by (simp split: option.splits dirent.splits)
  next
    case False
    from this le_refl 0 have "changed_on_path ns ns' 0 i"
      by (rule changed_on_pathI)
    then show ?thesis ..
  qed
next
  case (Suc n)
  show ?case
  proof (cases "ns' x = ns x")
    case False
    from this le_refl Suc.prems have "changed_on_path ns ns' (Suc n) i"
      by (rule changed_on_pathI)
    then show ?thesis ..
  next
    case True
    show ?thesis
    proof (cases "ns x")
      case None
      with Suc.prems show ?thesis by simp
    next
      case (Some e)
      show ?thesis
      proof (cases e)
        case (Hard j)
        with Some Suc.prems True show ?thesis by simp
      next
        case (Sym t)
        with Some Suc.prems have "resolve n ns t = Found i" by simp
        from Suc.IH [OF this] show ?thesis
        proof
          assume "resolve n ns' t = Found i"
          with Some Sym True show ?thesis by simp
        next
          assume "changed_on_path ns ns' n i"
          then have "changed_on_path ns ns' (Suc n) i"
            by (rule changed_on_path_Suc)
          then show ?thesis ..
        qed
      qed
    qed
  qed
qed

lemma resolve_after_rename:
  assumes old: "ns old = Some (Sym t)"
    and new: "\<And>k. k \<le> N \<Longrightarrow> resolve k ns new \<noteq> Found i"
  shows "n \<le> N \<Longrightarrow> resolve n ns t = Found i \<Longrightarrow>
         resolve n (ns(new \<mapsto> e, old := None)) t = Found i"
proof (induction n rule: less_induct)
  case (less n)
  from resolve_change [OF less.prems(2), of "ns(new \<mapsto> e, old := None)"] show ?case
  proof
    assume "resolve n (ns(new \<mapsto> e, old := None)) t = Found i"
    then show ?thesis .
  next
    assume "changed_on_path ns (ns(new \<mapsto> e, old := None)) n i"
    then obtain a k where a: "(ns(new \<mapsto> e, old := None)) a \<noteq> ns a"
      and k: "k \<le> n" and r: "resolve k ns a = Found i"
      unfolding changed_on_path_def by (elim exE conjE)
    have "a = new \<or> a = old"
    proof (rule ccontr)
      assume "\<not> (a = new \<or> a = old)"
      then have "(ns(new \<mapsto> e, old := None)) a = ns a" by simp
      with a show False by simp
    qed
    moreover from k less.prems(1) have "k \<le> N" by simp
    then have "resolve k ns new \<noteq> Found i" by (rule new)
    ultimately have "a = old" using r by auto
    with r old obtain k' where k': "k = Suc k'" and r': "resolve k' ns t = Found i"
      by (cases k) simp_all
    from k' k have lt: "k' < n" by simp
    with less.prems(1) have "k' \<le> N" by simp
    from less.IH [OF lt this r'] have "resolve k' (ns(new \<mapsto> e, old := None)) t = Found i" .
    moreover from lt have "k' \<le> n" by simp
    ultimately show ?thesis by (rule resolve_mono)
  qed
qed

lemma resolve_Found_unique:
  assumes "resolve n ns x = Found i" and "resolve m ns x = Found j"
  shows "i = j"
proof -
  from assms(1) have "resolve (max n m) ns x = Found i"
    by (rule resolve_mono) simp
  moreover from assms(2) have "resolve (max n m) ns x = Found j"
    by (rule resolve_mono) simp
  ultimately show ?thesis by simp
qed

subsection \<open>File operations\<close>

lemma contents_log [simp]: "contents (log e w) name = contents w name"
  by (simp add: contents_def log_def split: target.split)

lemma same_file_log [simp]: "same_file (log e w) a b = same_file w a b"
  by (simp add: same_file_def log_def split: target.split)

lemma trace_log [simp]: "trace (log e w) = trace w @ [e]"
  by (simp add: log_def)

lemma log_fields [simp]:
  "names (log e w) = names w" "store (log e w) = store w"
  "read_fault (log e w) = read_fault w" "write_fault (log e w) = write_fault w"
  "rename_fault (log e w) = rename_fault w" "entries (log e w) = entries w"
  "GOPATH (log e w) = GOPATH w" "stdin (log e w) = stdin w"
  by (simp_all add: log_def)

lemma contents_Some:
  "contents w name = Some c \<longleftrightarrow>
     (\<exists>i. resolve maxSymlinks (names w) name = Found i \<and> i < length (store w) \<and> store w ! i = c)"
  by (cases "resolve maxSymlinks (names w) name") (auto simp: contents_def)

lemma same_file_iff:
  "same_file w a b \<longleftrightarrow>
     (\<exists>i. resolve maxSymlinks (names w) a = Found i \<and> resolve maxSymlinks (names w) b = Found i)"
  by (cases "resolve maxSymlinks (names w) a") (simp_all add: same_file_def)

lemma os_ReadFile_world: "snd (os_ReadFile name w) = log (ReadFile name) w"
  by (simp add: os_ReadFile_def split: option.split)

lemma os_ReadFile_ok:
  "fst (os_ReadFile name w) = (content, None) \<longleftrightarrow>
     read_fault w name = None \<and> contents w name = Some content"
  by (auto simp: os_ReadFile_def split: option.splits)

lemma os_ReadFile_failed:
  "snd (fst (os_ReadFile name w)) \<noteq> None \<longleftrightarrow>
     read_fault w name \<noteq> None \<or> contents w name = None"
  by (auto simp: os_ReadFile_def split: option.splits)

lemma openTrunc_error: "openTrunc a bytes w = (Some err, w1) \<Longrightarrow> w1 = w"
  by (cases "resolve maxSymlinks (names w) a")
     (auto simp: openTrunc_def split: if_splits)

lemma openTrunc_frame:
  "openTrunc a bytes w = (r, w1) \<Longrightarrow>
     trace w1 = trace w \<and> read_fault w1 = read_fault w \<and> write_fault w1 = write_fault w \<and>
     rename_fault w1 = rename_fault w \<and> entries w1 = entries w \<and> GOPATH w1 = GOPATH w \<and>
     stdin w1 = stdin w"
  by (cases "resolve maxSymlinks (names w) a")
     (auto simp: openTrunc_def split: if_splits)

lemma openTrunc_writable:
  "fst (openTrunc a bytes w) = None \<longleftrightarrow> writable w a"
  by (cases "resolve maxSymlinks (names w) a")
     (simp_all add: openTrunc_def writable_def)

lemma openTrunc_written:
  assumes "openTrunc a bytes w = (None, w1)"
  shows "\<exists>i. resolve maxSymlinks (names w1) a = Found i \<and> i < length (store w1) \<and>
             store w1 ! i = bytes"
proof (cases "resolve maxSymlinks (names w) a")
  case (Found i)
  with assms show ?thesis
    by (auto simp: openTrunc_def split: if_splits)
next
  case (Missing final)
  with assms have w1: "w1 = w\<lparr>names := (names w)(final \<mapsto> Hard (length (store w))),
                                store := store w @ [bytes]\<rparr>"
    by (simp add: openTrunc_def)
  from Missing have "resolve maxSymlinks ((names w)(final \<mapsto> Hard (length (store w)))) a
      = Found (length (store w))"
    by (rule resolve_create)
  with w1 show ?thesis by simp
next
  case Loop
  with assms show ?thesis by (simp add: openTrunc_def)
qed

lemma openTrunc_other:
  assumes "openTrunc a bytes w = (r, w1)"
    and b: "resolve maxSymlinks (names w) b = Found j" "j < length (store w)"
    and ab: "\<not> same_file w a b"
  shows "resolve maxSymlinks (names w1) b = Found j \<and> j < length (store w1) \<and>
         store w1 ! j = store w ! j \<and> \<not> same_file w1 a b"
proof (cases "resolve maxSymlinks (names w) a")
  case (Found i)
  with ab b(1) have ij: "i \<noteq> j"
    by (auto simp: same_file_iff)
  show ?thesis
  proof (cases "i < length (store w)")
    case True
    with Found assms(1) have "w1 = w\<lparr>store := (store w)[i := bytes]\<rparr>"
      by (simp add: openTrunc_def)
    with b ij ab show ?thesis
      by (simp add: same_file_iff)
  next
    case False
    with Found assms(1) have "w1 = w"
      by (simp add: openTrunc_def)
    with b ab show ?thesis by simp
  qed
next
  case (Missing final)
  with assms(1) have w1: "w1 = w\<lparr>names := (names w)(final \<mapsto> Hard (length (store w))),
                                    store := store w @ [bytes]\<rparr>"
    by (simp add: openTrunc_def)
  from Missing have "names w final = None"
    by (rule resolve_Missing_None)
  with b(1) have rb: "resolve maxSymlinks ((names w)(final \<mapsto> Hard (length (store w)))) b = Found j"
    by (rule resolve_add_missing)
  from Missing have ra: "resolve maxSymlinks ((names w)(final \<mapsto> Hard (length (store w)))) a
      = Found (length (store w))"
    by (rule resolve_create)
  from w1 rb ra b(2) show ?thesis
    by (simp add: same_file_iff nth_append)
next
  case Loop
  with assms(1) have "w1 = w"
    by (simp add: openTrunc_def)
  with b ab show ?thesis by simp
qed

lemma os_WriteFile_shape:
  "snd (os_WriteFile a data w) = log (WriteFile a data) w \<or>
   (\<exists>bytes. snd (os_WriteFile a data w) = log (WriteFile a data) (snd (openTrunc a bytes w)))"
proof (cases "write_fault w a")
  case None
  then have "snd (os_WriteFile a data w) = log (WriteFile a data) (snd (openTrunc a data w))"
    by (simp add: os_WriteFile_def split: prod.splits)
  then show ?thesis by (intro disjI2 exI)
next
  case (Some f)
  show ?thesis
  proof (cases f)
    case (OpenFails msg)
    with Some show ?thesis by (simp add: os_WriteFile_def)
  next
    case (WriteFails n msg)
    with Some have "snd (os_WriteFile a data w)
        = log (WriteFile a data) (snd (openTrunc a (take n data) w))"
      by (simp add: os_WriteFile_def split: prod.splits option.splits)
    then show ?thesis by (intro disjI2 exI)
  qed
qed

lemma os_WriteFile_frame:
  "trace (snd (os_WriteFile a data w)) = trace w @ [WriteFile a data] \<and>
   read_fault (snd (os_WriteFile a data w)) = read_fault w \<and>
   write_fault (snd (os_WriteFile a data w)) = write_fault w \<and>
   rename_fault (snd (os_WriteFile a data w)) = rename_fault w"
proof -
  have frame: "trace (snd (openTrunc a bytes w)) = trace w \<and>
      read_fault (snd (openTrunc a bytes w)) = read_fault w \<and>
      write_fault (snd (openTrunc a bytes w)) = write_fault w \<and>
      rename_fault (snd (openTrunc a bytes w)) = rename_fault w" for bytes
    using openTrunc_frame [of a bytes w "fst (openTrunc a bytes w)" "snd (openTrunc a bytes w)"]
    by simp
  from os_WriteFile_shape [of a data w] show ?thesis
  proof
    assume "snd (os_WriteFile a data w) = log (WriteFile a data) w"
    then show ?thesis by simp
  next
    assume "\<exists>bytes. snd (os_WriteFile a data w)
        = log (WriteFile a data) (snd (openTrunc a bytes w))"
    then obtain bytes where "snd (os_WriteFile a data w)
        = log (WriteFile a data) (snd (openTrunc a bytes w))" ..
    with frame [of bytes] show ?thesis by simp
  qed
qed

lemma os_WriteFile_other:
  assumes b: "resolve maxSymlinks (names w) b = Found j" "j < length (store w)"
    and ab: "\<not> same_file w a b"
  shows "resolve maxSymlinks (names (snd (os_WriteFile a data w))) b = Found j \<and>
         j < length (store (snd (os_WriteFile a data w))) \<and>
         store (snd (os_WriteFile a data w)) ! j = store w ! j \<and>
         \<not> same_file (snd (os_WriteFile a data w)) a b"
proof -
  have other: "resolve maxSymlinks (names (snd (openTrunc a bytes w))) b = Found j \<and>
      j < length (store (snd (openTrunc a bytes w))) \<and>
      store (snd (openTrunc a bytes w)) ! j = store w ! j \<and>
      \<not> same_file (snd (openTrunc a bytes w)) a b" for bytes
    using openTrunc_other [of a bytes w "fst (openTrunc a bytes w)" "snd (openTrunc a bytes w)" b j]
      b ab by simp
  from os_WriteFile_shape [of a data w] show ?thesis
  proof
    assume "snd (os_WriteFile a data w) = log (WriteFile a data) w"
    with b ab show ?thesis by simp
  next
    assume "\<exists>bytes. snd (os_WriteFile a data w)
        = log (WriteFile a data) (snd (openTrunc a bytes w))"
    then obtain bytes where "snd (os_WriteFile a data w)
        = log (WriteFile a data) (snd (openTrunc a bytes w))" ..
    with other [of bytes] show ?thesis by simp
  qed
qed

lemma os_WriteFile_result:
  "fst (os_WriteFile a data w) = None \<longleftrightarrow> write_fault w a = None \<and> writable w a"
proof (cases "write_fault w a")
  case None
  then have "fst (os_WriteFile a data w) = fst (openTrunc a data w)"
    by (simp add: os_WriteFile_def split: prod.splits)
  with None show ?thesis by (simp add: openTrunc_writable)
next
  case (Some f)
  then show ?thesis
    by (cases f) (simp_all add: os_WriteFile_def split: prod.splits option.splits)
qed

lemma os_WriteFile_written:
  assumes "fst (os_WriteFile a data w) = None"
  shows "\<exists>i. resolve maxSymlinks (names (snd (os_WriteFile a data w))) a = Found i \<and>
             i < length (store (snd (os_WriteFile a data w))) \<and>
             store (snd (os_WriteFile a data w)) ! i = data"
proof -
  from assms have nf: "write_fault w a = None" and "writable w a"
    by (simp_all add: os_WriteFile_result)
  then have "fst (openTrunc a data w) = None"
    by (simp add: openTrunc_writable)
  then have "openTrunc a data w = (None, snd (openTrunc a data w))"
    by (simp add: prod_eq_iff)
  from openTrunc_written [OF this] obtain i where
    "resolve maxSymlinks (names (snd (openTrunc a data w))) a = Found i"
    "i < length (store (snd (openTrunc a data w)))" "store (snd (openTrunc a data w)) ! i = data"
    by (elim exE conjE)
  moreover from nf have "snd (os_WriteFile a data w)
      = log (WriteFile a data) (snd (openTrunc a data w))"
    by (simp add: os_WriteFile_def split: prod.splits)
  ultimately show ?thesis by simp
qed

lemma os_Rename_result:
  "fst (os_Rename old new w) = None \<longleftrightarrow> rename_fault w old = None \<and> names w old \<noteq> None"
  by (simp add: os_Rename_def split: option.splits)

lemma os_Rename_frame:
  "trace (snd (os_Rename old new w)) = trace w @ [Rename old new] \<and>
   store (snd (os_Rename old new w)) = store w"
  by (simp add: os_Rename_def log_def split: option.splits)

lemma os_Rename_failed:
  "fst (os_Rename old new w) \<noteq> None \<Longrightarrow> snd (os_Rename old new w) = log (Rename old new) w"
  by (simp add: os_Rename_def split: option.splits if_splits)

lemma resolve_entry:
  "resolve n ns x = Found i \<Longrightarrow>
     ns x = Some (Hard i) \<or> (\<exists>t m. ns x = Some (Sym t) \<and> n = Suc m \<and> resolve m ns t = Found i)"
  by (cases n; cases "ns x") (auto split: dirent.splits)

lemma resolve_Hard: "ns x = Some (Hard i) \<Longrightarrow> resolve n ns x = Found i"
  by (cases n) simp_all

lemma os_Rename_moves:
  assumes ok: "fst (os_Rename old new w) = None" and ne: "old \<noteq> new"
    and i: "resolve maxSymlinks (names w) old = Found i"
    and ab: "\<not> same_file w old new"
  shows "resolve maxSymlinks (names (snd (os_Rename old new w))) new = Found i"
proof -
  from ok have nf: "rename_fault w old = None"
    by (simp add: os_Rename_result)
  from ab i have new: "resolve maxSymlinks (names w) new \<noteq> Found i"
    by (simp add: same_file_iff)
  from resolve_entry [OF i] show ?thesis
  proof
    assume h: "names w old = Some (Hard i)"
    have "names w new \<noteq> Some (Hard i)"
    proof
      assume "names w new = Some (Hard i)"
      then have "resolve maxSymlinks (names w) new = Found i"
        by (rule resolve_Hard)
      with new show False by simp
    qed
    with h nf ne have "names (snd (os_Rename old new w)) = (names w)(new \<mapsto> Hard i, old := None)"
      by (simp add: os_Rename_def log_def sameHardLink_def)
    with ne show ?thesis
      by (simp add: resolve_Hard)
  next
    assume "\<exists>t m. names w old = Some (Sym t) \<and> maxSymlinks = Suc m \<and> resolve m (names w) t = Found i"
    then obtain t m where s: "names w old = Some (Sym t)" and m: "maxSymlinks = Suc m"
      and r: "resolve m (names w) t = Found i"
      by (elim exE conjE)
    from s nf ne have n': "names (snd (os_Rename old new w)) = (names w)(new \<mapsto> Sym t, old := None)"
      by (simp add: os_Rename_def log_def sameHardLink_def)
    have "resolve k (names w) new \<noteq> Found i" if "k \<le> m" for k
    proof
      assume "resolve k (names w) new = Found i"
      moreover from that m have "k \<le> maxSymlinks" by simp
      ultimately have "resolve maxSymlinks (names w) new = Found i"
        by (rule resolve_mono)
      with new show False by simp
    qed
    with s have "resolve m ((names w)(new \<mapsto> Sym t, old := None)) t = Found i"
      using le_refl r by (rule resolve_after_rename)
    with ne have "resolve (Suc m) ((names w)(new \<mapsto> Sym t, old := None)) new = Found i"
      by simp
    then show ?thesis
      unfolding n' m .
  qed
qed

subsection \<open>The writer\<close>

lemma writable_log [simp]: "writable (log e w) name = writable w name"
  by (simp add: writable_def log_def split: target.split)

lemma replaceInGoMod_read_failed:
  assumes "read_fault w ''go.mod'' \<noteq> None \<or> contents w ''go.mod'' = None"
  shows "fst (replaceInGoMod module localPath w) \<noteq> None \<and>
         snd (replaceInGoMod module localPath w) = log (ReadFile ''go.mod'') w"
  using assms
  by (auto simp: replaceInGoMod_def os_ReadFile_def split: option.splits)

lemma replaceInGoMod_after_read:
  assumes "read_fault w ''go.mod'' = None" and "contents w ''go.mod'' = Some content"
  shows "replaceInGoMod module localPath w =
     (case os_WriteFile ''go.mod.tmp'' (content @ newReplace module localPath)
             (log (ReadFile ''go.mod'') w) of
        (Some err, w2) \<Rightarrow> (Some (''failed to write temp file: '' @ err), w2)
      | (None, w2) \<Rightarrow>
          (case os_Rename ''go.mod.tmp'' ''go.mod'' w2 of
             (Some err, w3) \<Rightarrow> (Some (''failed to rename temp file: '' @ err), w3)
           | (None, w3) \<Rightarrow> (None, w3)))"
  using assms by (simp add: replaceInGoMod_def os_ReadFile_def Let_def)

lemma replaceInGoMod_write_failed:
  assumes "read_fault w ''go.mod'' = None" and "contents w ''go.mod'' = Some content"
    and "write_fault w ''go.mod.tmp'' \<noteq> None \<or> \<not> writable w ''go.mod.tmp''"
  shows "(\<exists>err. fst (replaceInGoMod module localPath w)
                  = Some (''failed to write temp file: '' @ err)) \<and>
         trace (snd (replaceInGoMod module localPath w)) = trace w @
           [ReadFile ''go.mod'', WriteFile ''go.mod.tmp'' (content @ newReplace module localPath)] \<and>
         (\<not> same_file w ''go.mod.tmp'' ''go.mod'' \<longrightarrow>
            contents (snd (replaceInGoMod module localPath w)) ''go.mod'' = Some content)"
proof -
  define w1 where "w1 = log (ReadFile ''go.mod'') w"
  define data where "data = content @ newReplace module localPath"
  define wr where "wr = os_WriteFile ''go.mod.tmp'' data w1"
  from assms(3) have "fst wr \<noteq> None"
    by (simp add: wr_def w1_def os_WriteFile_result)
  then obtain err where err: "fst wr = Some err" by blast
  then have wr: "os_WriteFile ''go.mod.tmp'' data w1 = (Some err, snd wr)"
    by (simp add: wr_def prod_eq_iff)
  have R: "replaceInGoMod module localPath w = (Some (''failed to write temp file: '' @ err), snd wr)"
    using replaceInGoMod_after_read [OF assms(1,2), of module localPath] wr
    by (simp add: w1_def data_def)
  have tr: "trace (snd wr) = trace w @ [ReadFile ''go.mod'', WriteFile ''go.mod.tmp'' data]"
    using os_WriteFile_frame [of "''go.mod.tmp''" data w1] by (simp add: wr_def w1_def)
  have keep: "contents (snd wr) ''go.mod'' = Some content"
    if na: "\<not> same_file w ''go.mod.tmp'' ''go.mod''"
  proof -
    from assms(2) obtain j where j: "resolve maxSymlinks (names w1) ''go.mod'' = Found j"
        "j < length (store w1)" "store w1 ! j = content"
      unfolding contents_Some w1_def by auto
    from na have "\<not> same_file w1 ''go.mod.tmp'' ''go.mod''"
      by (simp add: w1_def)
    from os_WriteFile_other [OF j(1,2) this, of data] j(3) show ?thesis
      unfolding contents_Some wr_def by auto
  qed
  from R tr keep show ?thesis
    by (simp add: data_def)
qed

lemma replaceInGoMod_written:
  assumes "read_fault w ''go.mod'' = None" and "contents w ''go.mod'' = Some content"
    and "write_fault w ''go.mod.tmp'' = None" and "writable w ''go.mod.tmp''"
  shows "fst (replaceInGoMod module localPath w) =
           (case rename_fault w ''go.mod.tmp'' of
              None \<Rightarrow> None
            | Some msg \<Rightarrow> Some (''failed to rename temp file: '' @ msg)) \<and>
         trace (snd (replaceInGoMod module localPath w)) = trace w @
           [ReadFile ''go.mod'', WriteFile ''go.mod.tmp'' (content @ newReplace module localPath),
            Rename ''go.mod.tmp'' ''go.mod''] \<and>
         (\<not> same_file w ''go.mod.tmp'' ''go.mod'' \<longrightarrow>
            contents (snd (replaceInGoMod module localPath w)) ''go.mod'' =
              (case rename_fault w ''go.mod.tmp'' of
                 None \<Rightarrow> Some (content @ newReplace module localPath)
               | Some msg \<Rightarrow> Some content))"
proof -
  define w1 where "w1 = log (ReadFile ''go.mod'') w"
  define data where "data = content @ newReplace module localPath"
  define w2 where "w2 = snd (os_WriteFile ''go.mod.tmp'' data w1)"
  define w3 where "w3 = snd (os_Rename ''go.mod.tmp'' ''go.mod'' w2)"
  from assms(3,4) have ok: "fst (os_WriteFile ''go.mod.tmp'' data w1) = None"
    by (simp add: w1_def os_WriteFile_result)
  then have wr: "os_WriteFile ''go.mod.tmp'' data w1 = (None, w2)"
    by (simp add: w2_def prod_eq_iff)
  from os_WriteFile_written [OF ok] obtain i where
    i: "resolve maxSymlinks (names w2) ''go.mod.tmp'' = Found i" "i < length (store w2)"
       "store w2 ! i = data"
    unfolding w2_def by (elim exE conjE)
  from resolve_entry [OF i(1)] have entry: "names w2 ''go.mod.tmp'' \<noteq> None"
    by auto
  have frame2: "trace w2 = trace w @ [ReadFile ''go.mod'', WriteFile ''go.mod.tmp'' data]"
      "rename_fault w2 = rename_fault w"
    using os_WriteFile_frame [of "''go.mod.tmp''" data w1] by (simp_all add: w2_def w1_def)
  have rn: "os_Rename ''go.mod.tmp'' ''go.mod'' w2 =
      (case rename_fault w ''go.mod.tmp'' of None \<Rightarrow> None | Some msg \<Rightarrow> Some msg, w3)"
    using entry frame2(2)
    by (auto simp: w3_def os_Rename_def split: option.splits)
  have R: "replaceInGoMod module localPath w =
      (case rename_fault w ''go.mod.tmp'' of
         None \<Rightarrow> None
       | Some msg \<Rightarrow> Some (''failed to rename temp file: '' @ msg), w3)"
    using replaceInGoMod_after_read [OF assms(1,2), of module localPath] wr rn
    by (simp add: w1_def data_def split: option.splits)
  have tr: "trace w3 = trace w @ [ReadFile ''go.mod'', WriteFile ''go.mod.tmp'' data,
      Rename ''go.mod.tmp'' ''go.mod'']"
    using os_Rename_frame [of "''go.mod.tmp''" "''go.mod''" w2] frame2(1)
    by (simp add: w3_def)
  have keep: "contents w3 ''go.mod'' =
      (case rename_fault w ''go.mod.tmp'' of None \<Rightarrow> Some data | Some msg \<Rightarrow> Some content)"
    if na: "\<not> same_file w ''go.mod.tmp'' ''go.mod''"
  proof -
    from assms(2) obtain j where j: "resolve maxSymlinks (names w1) ''go.mod'' = Found j"
        "j < length (store w1)" "store w1 ! j = content"
      unfolding contents_Some w1_def by auto
    from na have "\<not> same_file w1 ''go.mod.tmp'' ''go.mod''"
      by (simp add: w1_def)
    from os_WriteFile_other [OF j(1,2) this, of data]
    have o: "resolve maxSymlinks (names w2) ''go.mod'' = Found j" "j < length (store w2)"
        "store w2 ! j = store w1 ! j" "\<not> same_file w2 ''go.mod.tmp'' ''go.mod''"
      by (simp_all add: w2_def)
    show ?thesis
    proof (cases "rename_fault w ''go.mod.tmp''")
      case (Some msg)
      with rn have "fst (os_Rename ''go.mod.tmp'' ''go.mod'' w2) \<noteq> None"
        by simp
      then have "w3 = log (Rename ''go.mod.tmp'' ''go.mod'') w2"
        unfolding w3_def by (rule os_Rename_failed)
      with o j(3) Some show ?thesis
        by (simp add: contents_Some)
    next
      case None
      with rn have "fst (os_Rename ''go.mod.tmp'' ''go.mod'' w2) = None"
        by simp
      from os_Rename_moves [OF this _ i(1) o(4)]
      have "resolve maxSymlinks (names w3) ''go.mod'' = Found i"
        by (simp add: w3_def)
      moreover have "store w3 = store w2"
        using os_Rename_frame [of "''go.mod.tmp''" "''go.mod''" w2] by (simp add: w3_def)
      ultimately have "contents w3 ''go.mod'' = Some data"
        using i(2,3) by (simp add: contents_Some)
      with None show ?thesis by simp
    qed
  qed
  from R tr keep show ?thesis
    unfolding data_def by (simp split: option.split)
qed

lemma replaceInGoMod_ok:
  assumes "replaceInGoMod module localPath w = (None, w')"
  shows "\<exists>content. contents w ''go.mod'' = Some content \<and>
           trace w' = trace w @
             [ReadFile ''go.mod'',
              WriteFile ''go.mod.tmp'' (content @ newReplace module localPath),
              Rename ''go.mod.tmp'' ''go.mod''] \<and>
           (\<not> same_file w ''go.mod.tmp'' ''go.mod'' \<longrightarrow>
              contents w' ''go.mod'' = Some (content @ newReplace module localPath))"
proof -
  from assms have R: "fst (replaceInGoMod module localPath w) = None"
      "snd (replaceInGoMod module localPath w) = w'"
    by simp_all
  have rd: "read_fault w ''go.mod'' = None \<and> contents w ''go.mod'' \<noteq> None"
    using replaceInGoMod_read_failed [of w module localPath] R(1) by blast
  then obtain content where c: "read_fault w ''go.mod'' = None" "contents w ''go.mod'' = Some content"
    by blast
  have wr: "write_fault w ''go.mod.tmp'' = None \<and> writable w ''go.mod.tmp''"
  proof (rule ccontr)
    assume "\<not> (write_fault w ''go.mod.tmp'' = None \<and> writable w ''go.mod.tmp'')"
    then have "write_fault w ''go.mod.tmp'' \<noteq> None \<or> \<not> writable w ''go.mod.tmp''"
      by (simp only: de_Morgan_conj)
    from replaceInGoMod_write_failed [OF c this, of module localPath] R(1) show False
      by auto
  qed
  then have wr': "write_fault w ''go.mod.tmp'' = None" "writable w ''go.mod.tmp''"
    by simp_all
  note wn = replaceInGoMod_written [OF c wr', of module localPath]
  from wn R(1) have rn: "rename_fault w ''go.mod.tmp'' = None"
    by (cases "rename_fault w ''go.mod.tmp''") simp_all
  from wn rn R(2) c(2) show ?thesis
    by simp
qed



subsection \<open>The resolver and the prompts\<close>

lemma same_files_contents:
  assumes "same_files w w'"
  shows "contents w' name = contents w name" and "same_file w' a b = same_file w a b"
  using assms by (simp_all add: same_files_def contents_def same_file_def split: target.split)

lemma ReadString_same_files:
  "ReadString w = (r, w') \<Longrightarrow> same_files w w' \<and> trace w' = trace w"
  by (auto simp: ReadString_def same_files_def split: prod.splits)

lemma selectDependency_same_files:
  "selectDependency matched w = (r, w') \<Longrightarrow> same_files w w' \<and> trace w' = trace w"
proof (cases "length matched = 1")
  case True
  assume "selectDependency matched w = (r, w')"
  with True have "w' = w" by (simp add: selectDependency_def)
  then show ?thesis by (simp add: same_files_def)
next
  case False
  assume a: "selectDependency matched w = (r, w')"
  obtain x w1 where rs: "ReadString w = (x, w1)" by (cases "ReadString w")
  with a False have "w' = w1"
    by (auto simp: selectDependency_def Let_def
        split: prod.splits bool.splits option.splits if_splits)
  with ReadString_same_files [OF rs] show ?thesis by simp
qed

lemma confirmSelection_same_files:
  "confirmSelection selected w = (r, w') \<Longrightarrow> same_files w w' \<and> trace w' = trace w"
proof -
  assume a: "confirmSelection selected w = (r, w')"
  obtain x w1 where rs: "ReadString w = (x, w1)" by (cases "ReadString w")
  with a have "w' = w1"
    by (auto simp: confirmSelection_def split: prod.splits)
  with ReadString_same_files [OF rs] show ?thesis by simp
qed

lemma os_Stat_eq: "os_Stat name w = (name \<in> entries w, w\<lparr>trace := trace w @ [Stat name]\<rparr>)"
  by (simp add: os_Stat_def log_def)

lemma findLocalPath_found:
  assumes "Join [GOPATH w, ''src'', modulePath] \<in> entries w"
  shows "findLocalPath modulePath w =
           ((Join [GOPATH w, ''src'', modulePath], None),
            w\<lparr>trace := trace w @ [Stat (Join [GOPATH w, ''src'', modulePath])]\<rparr>)"
  using assms by (simp add: findLocalPath_def os_Stat_eq Let_def)

lemma findLocalPath_same:
  assumes "Join [GOPATH w, ''src'', modulePath] \<notin> entries w"
    and "removeVersionFromPath modulePath = modulePath"
  shows "findLocalPath modulePath w =
           (([], Some (''local copy not found: tried '' @ Join [GOPATH w, ''src'', modulePath]
                       @ '' and '' @ Join [GOPATH w, ''src'', modulePath])),
            w\<lparr>trace := trace w @ [Stat (Join [GOPATH w, ''src'', modulePath])]\<rparr>)"
  using assms by (simp add: findLocalPath_def os_Stat_eq Let_def)

lemma findLocalPath_stripped:
  assumes "Join [GOPATH w, ''src'', modulePath] \<notin> entries w"
    and "removeVersionFromPath modulePath \<noteq> modulePath"
  shows "findLocalPath modulePath w =
           ((if Join [GOPATH w, ''src'', removeVersionFromPath modulePath] \<in> entries w
             then (Join [GOPATH w, ''src'', removeVersionFromPath modulePath], None)
             else ([], Some (''local copy not found: tried '' @ Join [GOPATH w, ''src'', modulePath]
                       @ '' and '' @ Join [GOPATH w, ''src'', removeVersionFromPath modulePath]))),
            w\<lparr>trace := trace w @ [Stat (Join [GOPATH w, ''src'', modulePath]),
                                    Stat (Join [GOPATH w, ''src'', removeVersionFromPath modulePath])]\<rparr>)"
  using assms by (simp add: findLocalPath_def os_Stat_eq Let_def)

lemma findLocalPath_same_files:
  assumes "findLocalPath modulePath w = (r, w')"
  shows "same_files w w' \<and> (\<exists>stats. trace w' = trace w @ map Stat stats)"
proof -
  have "\<exists>stats. snd (findLocalPath modulePath w) = w\<lparr>trace := trace w @ map Stat stats\<rparr>"
  proof (cases "Join [GOPATH w, ''src'', modulePath] \<in> entries w")
    case True
    then have "snd (findLocalPath modulePath w)
        = w\<lparr>trace := trace w @ map Stat [Join [GOPATH w, ''src'', modulePath]]\<rparr>"
      by (simp add: findLocalPath_found)
    then show ?thesis ..
  next
    case False
    show ?thesis
    proof (cases "removeVersionFromPath modulePath = modulePath")
      case True
      with False have "snd (findLocalPath modulePath w)
          = w\<lparr>trace := trace w @ map Stat [Join [GOPATH w, ''src'', modulePath]]\<rparr>"
        by (simp add: findLocalPath_same)
      then show ?thesis ..
    next
      case ne: False
      with False have "snd (findLocalPath modulePath w)
          = w\<lparr>trace := trace w @ map Stat [Join [GOPATH w, ''src'', modulePath],
                Join [GOPATH w, ''src'', removeVersionFromPath modulePath]]\<rparr>"
        by (simp add: findLocalPath_stripped)
      then show ?thesis ..
    qed
  qed
  with assms show ?thesis
    by (auto simp: same_files_def)
qed

lemma main_Added_steps:
  assumes "main showHelp showHelpLong showVersion args w = (Added selected localPath, w')"
  shows "\<exists>modContent w1 matched w2 w3 w4.
           os_ReadFile ''go.mod'' w = ((modContent, None), w1) \<and>
           selectDependency matched w1 = ((selected, None), w2) \<and>
           confirmSelection selected w2 = (True, w3) \<and>
           findLocalPath selected w3 = ((localPath, None), w4) \<and>
           replaceInGoMod selected localPath w4 = (None, w')"
  using assms
  by (auto simp: main_def Let_def
      split: if_splits prod.splits option.splits bool.splits)

lemma count_list_Stat: "count_list (map Stat stats) (ReadFile name) = 0"
  by (induction stats) simp_all

subsection \<open>A temporary name that is a link to the manifest\<close>

text \<open>
  When \<open>go.mod.tmp\<close> is a symbolic link to \<open>go.mod\<close>, \<open>replaceInGoMod\<close> returns no
  error, but the rename puts the link in the place of the manifest: \<open>go.mod\<close> is then a
  link to itself and cannot be read.
\<close>

lemma replaceInGoMod_symlink_example:
  "fst (replaceInGoMod ''a/b'' ''/go/src/a/b''
      \<lparr>names = [''go.mod'' \<mapsto> Hard 0, ''go.mod.tmp'' \<mapsto> Sym ''go.mod''],
        store = [''require a/b v1''],
        entries = {}, GOPATH = ''/go'', stdin = [],
        read_fault = Map.empty, write_fault = Map.empty, rename_fault = Map.empty,
        trace = []\<rparr>) = None
   \<and> contents (snd (replaceInGoMod ''a/b'' ''/go/src/a/b''
      \<lparr>names = [''go.mod'' \<mapsto> Hard 0, ''go.mod.tmp'' \<mapsto> Sym ''go.mod''],
        store = [''require a/b v1''],
        entries = {}, GOPATH = ''/go'', stdin = [],
        read_fault = Map.empty, write_fault = Map.empty, rename_fault = Map.empty,
        trace = []\<rparr>)) ''go.mod'' = None"
  by code_simp

section \<open>The claims\<close>

text \<open>
  C1 (as amended). Take a line of the manifest that, once trimmed, begins with
  \<open>replace \<close> and splits on \<open>=>\<close> into at least two parts, and let \<open>A\<close> be the path
  the source extracts from it. If no \<open>require (\<close> block is open when the line is read
  and \<open>A\<close> is not empty, then \<open>A\<close> is in the replaced-set that \<open>parseGoMod\<close> returns,
  and the filter with that set never returns \<open>A\<close>, whatever the records and the partial
  name are.
\<close>

theorem replaced_path_excluded:
  assumes "i < length (Split content [NL])"
    and "line = TrimSpace (Split content [NL] ! i)"
    and "HasPrefix line ''replace ''"
    and "2 \<le> length (Split line ''=>'')"
    and "\<not> inRequire (parseLines (take i (Split content [NL])))"
    and "extractReplacePath line \<noteq> []"
  shows "lookup (snd (parseGoMod content)) (extractReplacePath line) \<and>
         extractReplacePath line \<notin> set (filterDependencies deps (snd (parseGoMod content)) partialName)"
proof -
  from assms(1) have "Split content [NL]
      = take i (Split content [NL]) @ Split content [NL] ! i # drop (Suc i) (Split content [NL])"
    by (rule id_take_nth_drop)
  then have "parseLines (Split content [NL])
      = parseLines (take i (Split content [NL]) @ Split content [NL] ! i # drop (Suc i) (Split content [NL]))"
    by simp
  moreover have "lookup (replaces (parseLines
      (take i (Split content [NL]) @ Split content [NL] ! i # drop (Suc i) (Split content [NL]))))
      (extractReplacePath (TrimSpace (Split content [NL] ! i)))"
    using assms(5) assms(3,6) [unfolded assms(2)] by (rule parseLines_replace_line)
  ultimately have "lookup (snd (parseGoMod content)) (extractReplacePath line)"
    by (simp add: parseGoMod_def Let_def assms(2))
  then show ?thesis
    by (simp add: filterDependencies_excludes)
qed

theorem replaced_path_excluded_witness:
  "lookup (snd (parseGoMod (''module m'' @ [NL] @ ''require a/b v1'' @ [NL] @ ''replace a/b => ../b'')))
     ''a/b''
   \<and> ''a/b'' \<notin> set (filterDependencies
        (fst (parseGoMod (''module m'' @ [NL] @ ''require a/b v1'' @ [NL] @ ''replace a/b => ../b'')))
        (snd (parseGoMod (''module m'' @ [NL] @ ''require a/b v1'' @ [NL] @ ''replace a/b => ../b'')))
        ''b'')"
proof -
  define content where
    "content = ''module m'' @ [NL] @ ''require a/b v1'' @ [NL] @ ''replace a/b => ../b''"
  have s: "Split content [NL] = [''module m'', ''require a/b v1'', ''replace a/b => ../b'']"
    unfolding content_def by code_simp
  have 1: "2 < length (Split content [NL])"
    by (simp add: s)
  have 2: "''replace a/b => ../b'' = TrimSpace (Split content [NL] ! 2)"
    unfolding s by code_simp
  have 3: "HasPrefix ''replace a/b => ../b'' ''replace ''"
    by code_simp
  have 4: "2 \<le> length (Split ''replace a/b => ../b'' ''=>'')"
    by code_simp
  have 5: "\<not> inRequire (parseLines (take 2 (Split content [NL])))"
    unfolding s by code_simp
  have e: "extractReplacePath ''replace a/b => ../b'' = ''a/b''"
    by code_simp
  then have 6: "extractReplacePath ''replace a/b => ../b'' \<noteq> []"
    by simp
  from replaced_path_excluded [OF 1 2 3 4 5 6, of "fst (parseGoMod content)" "''b''"]
  show ?thesis
    unfolding e content_def .
qed

text \<open>
  Without the two conditions the claim fails. Inside a \<open>require (\<close> block the line
  \<open>replace a/b => ../b\<close> is read as a require entry: \<open>a/b\<close> is not added to the
  replaced-set and the filter returns it.
\<close>

theorem replaced_path_counterexample:
  "HasPrefix (TrimSpace (Split
       (''require a/b v1'' @ [NL] @ ''require ('' @ [NL] @ ''replace a/b => ../b'' @ [NL] @ '')'')
       [NL] ! 2)) ''replace ''
   \<and> 2 \<le> length (Split (TrimSpace (Split
       (''require a/b v1'' @ [NL] @ ''require ('' @ [NL] @ ''replace a/b => ../b'' @ [NL] @ '')'')
       [NL] ! 2)) ''=>'')
   \<and> extractReplacePath (TrimSpace (Split
       (''require a/b v1'' @ [NL] @ ''require ('' @ [NL] @ ''replace a/b => ../b'' @ [NL] @ '')'')
       [NL] ! 2)) = ''a/b''
   \<and> \<not> lookup (snd (parseGoMod
       (''require a/b v1'' @ [NL] @ ''require ('' @ [NL] @ ''replace a/b => ../b'' @ [NL] @ '')'')))
       ''a/b''
   \<and> filterDependencies
       (fst (parseGoMod
         (''require a/b v1'' @ [NL] @ ''require ('' @ [NL] @ ''replace a/b => ../b'' @ [NL] @ '')'')))
       (snd (parseGoMod
         (''require a/b v1'' @ [NL] @ ''require ('' @ [NL] @ ''replace a/b => ../b'' @ [NL] @ '')'')))
       ''b'' = [''a/b'']"
  by code_simp

text \<open>
  C2 (as amended). The require-line parser first looks for \<open>indirect\<close> in the whole
  line, trailing comment included, and returns no record if it is there. Otherwise it
  takes the text before the first \<open>//\<close> (the whole line if there is none), splits it on
  white space and returns the record of the first two tokens if there are at least two,
  and no record (not an error) if there are fewer. The \<open>TrimSpace\<close> of the source does
  not change the tokens.
\<close>

theorem parseRequireLine_steps:
  "parseRequireLine line =
     (if \<exists>pre post. line = pre @ ''indirect'' @ post then None
      else case Fields (case Index line ''//'' of None \<Rightarrow> line | Some idx \<Rightarrow> take idx line) of
             p # v # rest \<Rightarrow> Some \<lparr>Path = p, Version = v\<rparr>
           | _ \<Rightarrow> None)"
proof -
  have c: "(\<exists>pre post. line = pre @ ''indirect'' @ post) \<longleftrightarrow> Contains line ''indirect''"
    by (simp only: Contains_iff)
  have f: "Fields (case Index line ''//'' of None \<Rightarrow> line | Some idx \<Rightarrow> TrimSpace (take idx line))
        = Fields (case Index line ''//'' of None \<Rightarrow> line | Some idx \<Rightarrow> take idx line)"
    by (simp add: Fields_TrimSpace split: option.split)
  show ?thesis
    unfolding c parseRequireLine_def Let_def f
    by (auto split: list.splits)
qed

theorem parseRequireLine_steps_witness:
  "parseRequireLine ''github.com/a/b v1.2.3 // pinned'' =
     Some \<lparr>Path = ''github.com/a/b'', Version = ''v1.2.3''\<rparr>
   \<and> parseRequireLine ''github.com/a/b v1.2.3 // indirect'' = None"
proof
  have c: "\<not> Contains ''github.com/a/b v1.2.3 // pinned'' ''indirect''"
    by code_simp
  have i: "Index ''github.com/a/b v1.2.3 // pinned'' ''//'' = Some 22"
    by code_simp
  have t: "take 22 ''github.com/a/b v1.2.3 // pinned'' = ''github.com/a/b v1.2.3 ''"
    by simp
  have f: "Fields ''github.com/a/b v1.2.3 '' = [''github.com/a/b'', ''v1.2.3'']"
    by code_simp
  note parseRequireLine_steps [of "''github.com/a/b v1.2.3 // pinned''", folded Contains_iff]
  then show "parseRequireLine ''github.com/a/b v1.2.3 // pinned'' =
     Some \<lparr>Path = ''github.com/a/b'', Version = ''v1.2.3''\<rparr>"
    by (simp only: c i t f if_False option.case list.case)
next
  have c: "Contains ''github.com/a/b v1.2.3 // indirect'' ''indirect''"
    by code_simp
  note parseRequireLine_steps [of "''github.com/a/b v1.2.3 // indirect''", folded Contains_iff]
  then show "parseRequireLine ''github.com/a/b v1.2.3 // indirect'' = None"
    by (simp only: c if_True)
qed

text \<open>
  The order of the claim as stated, comment first and \<open>indirect\<close> second, is
  \<open>parseRequireLine_spec\<close>. It keeps a line that is marked \<open>// indirect\<close>, which the
  source drops.
\<close>

theorem parseRequireLine_order_counterexample:
  "parseRequireLine_spec ''github.com/a/b v1.2.3 // indirect'' =
     Some \<lparr>Path = ''github.com/a/b'', Version = ''v1.2.3''\<rparr>
   \<and> parseRequireLine ''github.com/a/b v1.2.3 // indirect'' = None"
  by code_simp

text \<open>
  C3 (as amended). A run of \<open>main\<close> that ends with the directive added reads \<open>go.mod\<close>
  exactly twice, once in \<open>main\<close> for the parser and once in \<open>replaceInGoMod\<close>, with
  only the probes of the resolver between the two reads. It then writes \<open>go.mod.tmp\<close>
  once and renames it to \<open>go.mod\<close> once. The content written is the content of \<open>go.mod\<close>
  followed by the directive, and it is what \<open>go.mod\<close> holds at the end unless
  \<open>go.mod.tmp\<close> was a link to \<open>go.mod\<close>.
\<close>

theorem main_manifest_accesses:
  assumes "main showHelp showHelpLong showVersion args w = (Added selected localPath, w')"
  shows "\<exists>content stats.
           contents w ''go.mod'' = Some content \<and>
           trace w' = trace w @ [ReadFile ''go.mod''] @ map Stat stats @
             [ReadFile ''go.mod'',
              WriteFile ''go.mod.tmp'' (content @ newReplace selected localPath),
              Rename ''go.mod.tmp'' ''go.mod''] \<and>
           count_list (trace w') (ReadFile ''go.mod'')
             = count_list (trace w) (ReadFile ''go.mod'') + 2 \<and>
           (\<not> same_file w ''go.mod.tmp'' ''go.mod'' \<longrightarrow>
              contents w' ''go.mod'' = Some (content @ newReplace selected localPath))"
proof -
  from main_Added_steps [OF assms] obtain modContent w1 matched w2 w3 w4 where
    r: "os_ReadFile ''go.mod'' w = ((modContent, None), w1)" and
    s: "selectDependency matched w1 = ((selected, None), w2)" and
    c: "confirmSelection selected w2 = (True, w3)" and
    f: "findLocalPath selected w3 = ((localPath, None), w4)" and
    g: "replaceInGoMod selected localPath w4 = (None, w')"
    by blast
  from r have "fst (os_ReadFile ''go.mod'' w) = (modContent, None)"
      "snd (os_ReadFile ''go.mod'' w) = w1"
    by simp_all
  then have 1: "contents w ''go.mod'' = Some modContent" "w1 = log (ReadFile ''go.mod'') w"
    by (simp_all add: os_ReadFile_ok os_ReadFile_world)
  from selectDependency_same_files [OF s] have 2: "same_files w1 w2" "trace w2 = trace w1"
    by simp_all
  from confirmSelection_same_files [OF c] have 3: "same_files w2 w3" "trace w3 = trace w2"
    by simp_all
  from findLocalPath_same_files [OF f] obtain stats where
    4: "same_files w3 w4" "trace w4 = trace w3 @ map Stat stats"
    by blast
  have same: "contents w4 name = contents w name" "same_file w4 a b = same_file w a b" for name a b
    using same_files_contents [OF 2(1)] same_files_contents [OF 3(1)]
      same_files_contents [OF 4(1)] 1(2)
    by simp_all
  from replaceInGoMod_ok [OF g] obtain content where
    5: "contents w4 ''go.mod'' = Some content"
       "trace w' = trace w4 @
             [ReadFile ''go.mod'',
              WriteFile ''go.mod.tmp'' (content @ newReplace selected localPath),
              Rename ''go.mod.tmp'' ''go.mod'']"
       "\<not> same_file w4 ''go.mod.tmp'' ''go.mod'' \<longrightarrow>
              contents w' ''go.mod'' = Some (content @ newReplace selected localPath)"
    by blast
  from 5(1) 1(1) have content: "contents w ''go.mod'' = Some content"
    by (simp add: same)
  have tr: "trace w' = trace w @ [ReadFile ''go.mod''] @ map Stat stats @
             [ReadFile ''go.mod'',
              WriteFile ''go.mod.tmp'' (content @ newReplace selected localPath),
              Rename ''go.mod.tmp'' ''go.mod'']"
    using 1(2) 2(2) 3(2) 4(2) 5(2) by simp
  then have cnt: "count_list (trace w') (ReadFile ''go.mod'')
             = count_list (trace w) (ReadFile ''go.mod'') + 2"
    by (simp add: count_list_Stat)
  from 5(3) have keep: "\<not> same_file w ''go.mod.tmp'' ''go.mod'' \<longrightarrow>
              contents w' ''go.mod'' = Some (content @ newReplace selected localPath)"
    by (simp add: same)
  from content tr cnt keep show ?thesis
    by blast
qed

theorem main_manifest_accesses_witness:
  "\<exists>stats.
     trace (snd (main False False False [''proto'']
      \<lparr>names = [''go.mod'' \<mapsto> Hard 0],
        store = [''require github.com/foo/proto/v2 v2.0.0''],
        entries = {''/go/src/github.com/foo/proto''}, GOPATH = ''/go'', stdin = [[NL]],
        read_fault = Map.empty, write_fault = Map.empty, rename_fault = Map.empty,
        trace = []\<rparr>))
     = [ReadFile ''go.mod''] @ map Stat stats @
       [ReadFile ''go.mod'',
        WriteFile ''go.mod.tmp'' (''require github.com/foo/proto/v2 v2.0.0''
          @ newReplace ''github.com/foo/proto/v2'' ''/go/src/github.com/foo/proto''),
        Rename ''go.mod.tmp'' ''go.mod'']
     \<and> contents (snd (main False False False [''proto'']
      \<lparr>names = [''go.mod'' \<mapsto> Hard 0],
        store = [''require github.com/foo/proto/v2 v2.0.0''],
        entries = {''/go/src/github.com/foo/proto''}, GOPATH = ''/go'', stdin = [[NL]],
        read_fault = Map.empty, write_fault = Map.empty, rename_fault = Map.empty,
        trace = []\<rparr>)) ''go.mod''
     = Some (''require github.com/foo/proto/v2 v2.0.0''
          @ newReplace ''github.com/foo/proto/v2'' ''/go/src/github.com/foo/proto'')"
proof -
  define w where "w = \<lparr>names = [''go.mod'' \<mapsto> Hard 0],
        store = [''require github.com/foo/proto/v2 v2.0.0''],
        entries = {''/go/src/github.com/foo/proto''}, GOPATH = ''/go'', stdin = [[NL]],
        read_fault = Map.empty, write_fault = Map.empty, rename_fault = Map.empty,
        trace = []\<rparr>"
  have "fst (main False False False [''proto''] w)
      = Added ''github.com/foo/proto/v2'' ''/go/src/github.com/foo/proto''"
    unfolding w_def by code_simp
  then have run: "main False False False [''proto''] w
      = (Added ''github.com/foo/proto/v2'' ''/go/src/github.com/foo/proto'',
         snd (main False False False [''proto''] w))"
    by (simp add: prod_eq_iff)
  have g: "contents w ''go.mod'' = Some ''require github.com/foo/proto/v2 v2.0.0''"
    unfolding w_def by code_simp
  have t: "trace w = []"
    by (simp add: w_def)
  have n: "\<not> same_file w ''go.mod.tmp'' ''go.mod''"
    unfolding w_def by code_simp
  from main_manifest_accesses [OF run] g t n show ?thesis
    unfolding w_def [symmetric] by auto
qed

text \<open>
  The claim as stated has one read of the manifest. In this run, where the operator
  confirms with an empty line, the trace has two.
\<close>

theorem main_single_read_counterexample:
  "fst (main False False False [''proto'']
      \<lparr>names = [''go.mod'' \<mapsto> Hard 0],
        store = [''require github.com/foo/proto/v2 v2.0.0''],
        entries = {''/go/src/github.com/foo/proto''}, GOPATH = ''/go'', stdin = [[NL]],
        read_fault = Map.empty, write_fault = Map.empty, rename_fault = Map.empty,
        trace = []\<rparr>)
   = Added ''github.com/foo/proto/v2'' ''/go/src/github.com/foo/proto''
   \<and> count_list (trace (snd (main False False False [''proto'']
      \<lparr>names = [''go.mod'' \<mapsto> Hard 0],
        store = [''require github.com/foo/proto/v2 v2.0.0''],
        entries = {''/go/src/github.com/foo/proto''}, GOPATH = ''/go'', stdin = [[NL]],
        read_fault = Map.empty, write_fault = Map.empty, rename_fault = Map.empty,
        trace = []\<rparr>))) (ReadFile ''go.mod'') = 2"
  by code_simp

text \<open>
  C4 (as amended). If the manifest text leaves no \<open>require (\<close> block open at its end,
  and the module path \<open>M\<close> is not empty, has no white space at either end, no newline
  and no \<open>=>\<close> in it, then parsing the text with the directive for \<open>M\<close> appended gives a
  replaced-set that contains \<open>M\<close>, for every local path \<open>L\<close>.
\<close>

theorem replace_round_trip:
  assumes "\<not> inRequire (parseLines (Split content [NL]))"
    and "M \<noteq> []" and "TrimSpace M = M" and "NL \<notin> set M" and "\<not> Contains M ''=>''"
  shows "lookup (snd (parseGoMod (content @ newReplace M L))) M"
proof -
  obtain post where post: "L @ [NL] = takeWhile (\<lambda>c. c \<noteq> NL) L @ NL # post"
    using until_newline by blast
  define raw where "raw = ''replace '' @ M @ '' => '' @ takeWhile (\<lambda>c. c \<noteq> NL) L"
  have "NL \<notin> set raw"
    using assms(4) by (auto simp: raw_def dest: set_takeWhileD)
  then have "Split (raw @ NL # post) [NL] = raw # Split post [NL]"
    by (rule Split_char_first)
  moreover have "content @ newReplace M L = content @ NL # (raw @ NL # post)"
    using post by (simp add: newReplace_def raw_def)
  ultimately have lines: "Split (content @ newReplace M L) [NL]
      = Split content [NL] @ raw # Split post [NL]"
    by (simp add: Split_char_append)
  note rl = replace_line_extract [OF assms(2) assms(3) assms(5),
      of "takeWhile (\<lambda>c. c \<noteq> NL) L", folded raw_def]
  from assms(2) rl(2) have "extractReplacePath (TrimSpace raw) \<noteq> []"
    by simp
  with assms(1) rl(1)
  have "lookup (replaces (parseLines (Split content [NL] @ raw # Split post [NL])))
          (extractReplacePath (TrimSpace raw))"
    by (rule parseLines_replace_line)
  then show ?thesis
    by (simp add: parseGoMod_def Let_def lines rl(2))
qed

theorem replace_round_trip_witness:
  "lookup (snd (parseGoMod ((''module m'' @ [NL] @ ''require a/b v1'' @ [NL])
      @ newReplace ''a/b'' ''/go/src/a/b''))) ''a/b''"
proof -
  have 1: "\<not> inRequire (parseLines (Split (''module m'' @ [NL] @ ''require a/b v1'' @ [NL]) [NL]))"
    by code_simp
  have 2: "''a/b'' \<noteq> []"
    by simp
  have 3: "TrimSpace ''a/b'' = ''a/b''"
    by code_simp
  have 4: "NL \<notin> set ''a/b''"
    by simp
  have 5: "\<not> Contains ''a/b'' ''=>''"
    by code_simp
  from replace_round_trip [OF 1 2 3 4 5] show ?thesis .
qed

text \<open>
  A manifest that ends inside a \<open>require (\<close> block has no replace directive for
  \<open>a/b\<close>, and still has none after the directive is appended: the appended line is read
  as an entry of the block.
\<close>

theorem replace_round_trip_counterexample:
  "\<not> lookup (snd (parseGoMod (''require ('' @ [NL] @ ''x/y v1'' @ [NL]))) ''a/b''
   \<and> \<not> lookup (snd (parseGoMod ((''require ('' @ [NL] @ ''x/y v1'' @ [NL])
          @ newReplace ''a/b'' ''/go/src/a/b''))) ''a/b''"
  by code_simp

text \<open>
  C5. If \<open>os.Stat\<close> succeeds on the versioned candidate \<open><GOPATH>/src/<modulePath>\<close>,
  \<open>findLocalPath\<close> returns that candidate with no error, whether or not the
  version-stripped candidate exists. The stripped candidate is probed only when the
  versioned one was not found and stripping the version changed the module path;
  otherwise the only file operation is the probe of the versioned candidate. Nothing
  else of the environment changes.
\<close>

theorem findLocalPath_precedence:
  assumes "versioned = Join [GOPATH w, ''src'', modulePath]"
    and "stripped = Join [GOPATH w, ''src'', removeVersionFromPath modulePath]"
  shows "(versioned \<in> entries w \<longrightarrow> fst (findLocalPath modulePath w) = (versioned, None)) \<and>
         snd (findLocalPath modulePath w) =
           w\<lparr>trace := trace w @
                (if versioned \<notin> entries w \<and> removeVersionFromPath modulePath \<noteq> modulePath
                 then [Stat versioned, Stat stripped] else [Stat versioned])\<rparr>"
proof (cases "versioned \<in> entries w")
  case True
  then show ?thesis
    unfolding assms by (simp add: findLocalPath_found)
next
  case False
  then show ?thesis
    unfolding assms
    by (cases "removeVersionFromPath modulePath = modulePath")
       (simp_all add: findLocalPath_same findLocalPath_stripped)
qed

theorem findLocalPath_precedence_witness:
  "fst (findLocalPath ''github.com/foo/proto/v2''
      \<lparr>names = [''go.mod'' \<mapsto> Hard 0],
        store = [''require github.com/foo/proto/v2 v2.0.0''],
        entries = {''/go/src/github.com/foo/proto/v2'', ''/go/src/github.com/foo/proto''}, GOPATH = ''/go'', stdin = [],
        read_fault = Map.empty, write_fault = Map.empty, rename_fault = Map.empty,
        trace = []\<rparr>)
   = (''/go/src/github.com/foo/proto/v2'', None)
   \<and> trace (snd (findLocalPath ''github.com/foo/proto/v2''
      \<lparr>names = [''go.mod'' \<mapsto> Hard 0],
        store = [''require github.com/foo/proto/v2 v2.0.0''],
        entries = {''/go/src/github.com/foo/proto/v2'', ''/go/src/github.com/foo/proto''}, GOPATH = ''/go'', stdin = [],
        read_fault = Map.empty, write_fault = Map.empty, rename_fault = Map.empty,
        trace = []\<rparr>))
   = [Stat ''/go/src/github.com/foo/proto/v2'']"
proof -
  define w where "w = \<lparr>names = [''go.mod'' \<mapsto> Hard 0],
        store = [''require github.com/foo/proto/v2 v2.0.0''],
        entries = {''/go/src/github.com/foo/proto/v2'', ''/go/src/github.com/foo/proto''}, GOPATH = ''/go'', stdin = [],
        read_fault = Map.empty, write_fault = Map.empty, rename_fault = Map.empty,
        trace = []\<rparr>"
  have j: "''/go/src/github.com/foo/proto/v2'' = Join [GOPATH w, ''src'', ''github.com/foo/proto/v2'']"
    unfolding w_def by code_simp
  have e: "''/go/src/github.com/foo/proto/v2'' \<in> entries w"
    by (simp add: w_def)
  have t: "trace w = []"
    by (simp add: w_def)
  from findLocalPath_precedence [OF j refl] e t show ?thesis
    unfolding w_def [symmetric] by simp
qed

text \<open>
  C6. If \<open>os.Stat\<close> succeeds neither on the versioned candidate nor on the
  version-stripped one, \<open>findLocalPath\<close> returns the empty path and the error
  \<open>local copy not found: tried <versioned> and <stripped>\<close>, which names both.
\<close>

theorem findLocalPath_not_found:
  assumes "versioned = Join [GOPATH w, ''src'', modulePath]"
    and "stripped = Join [GOPATH w, ''src'', removeVersionFromPath modulePath]"
    and "versioned \<notin> entries w" and "stripped \<notin> entries w"
  shows "fst (findLocalPath modulePath w) =
           ([], Some (''local copy not found: tried '' @ versioned @ '' and '' @ stripped))"
  using assms(3,4) unfolding assms(1,2)
  by (cases "removeVersionFromPath modulePath = modulePath")
     (simp_all add: findLocalPath_same findLocalPath_stripped)

theorem findLocalPath_not_found_witness:
  "fst (findLocalPath ''github.com/foo/proto/v2''
      \<lparr>names = [''go.mod'' \<mapsto> Hard 0],
        store = [''require github.com/foo/proto/v2 v2.0.0''],
        entries = {}, GOPATH = ''/go'', stdin = [],
        read_fault = Map.empty, write_fault = Map.empty, rename_fault = Map.empty,
        trace = []\<rparr>)
   = ([], Some ''local copy not found: tried /go/src/github.com/foo/proto/v2 and /go/src/github.com/foo/proto'')"
proof -
  define w where "w = \<lparr>names = [''go.mod'' \<mapsto> Hard 0],
        store = [''require github.com/foo/proto/v2 v2.0.0''],
        entries = {}, GOPATH = ''/go'', stdin = [],
        read_fault = Map.empty, write_fault = Map.empty, rename_fault = Map.empty,
        trace = []\<rparr>"
  have j: "''/go/src/github.com/foo/proto/v2'' = Join [GOPATH w, ''src'', ''github.com/foo/proto/v2'']"
    unfolding w_def by code_simp
  have k: "''/go/src/github.com/foo/proto''
      = Join [GOPATH w, ''src'', removeVersionFromPath ''github.com/foo/proto/v2'']"
    unfolding w_def by code_simp
  have e: "''/go/src/github.com/foo/proto/v2'' \<notin> entries w"
      "''/go/src/github.com/foo/proto'' \<notin> entries w"
    by (simp_all add: w_def)
  from findLocalPath_not_found [OF j k e] show ?thesis
    unfolding w_def [symmetric] by simp
qed

text \<open>
  C7. The filter returns the paths of exactly those records whose path is not in the
  replaced-set and has the partial name as a literal substring (byte for byte, so case
  matters), in the order of the records and once for each record, so that a path that
  occurs twice in the input occurs twice in the output.
\<close>

theorem filterDependencies_contract:
  "filterDependencies deps reps partialName =
     map Path (filter (\<lambda>d. \<not> lookup reps (Path d) \<and>
                           (\<exists>pre post. Path d = pre @ partialName @ post)) deps)"
  by (simp add: filterDependencies_eq Contains_iff)

theorem filterDependencies_contract_witness:
  "filterDependencies
     [\<lparr>Path = ''x/proto'', Version = ''v1''\<rparr>, \<lparr>Path = ''x/Proto'', Version = ''v1''\<rparr>,
      \<lparr>Path = ''y/proto'', Version = ''v2''\<rparr>, \<lparr>Path = ''x/proto'', Version = ''v3''\<rparr>]
     [''y/proto'' \<mapsto> True] ''proto''
   = map Path (filter (\<lambda>d. \<not> lookup [''y/proto'' \<mapsto> True] (Path d) \<and>
                             (\<exists>pre post. Path d = pre @ ''proto'' @ post))
       [\<lparr>Path = ''x/proto'', Version = ''v1''\<rparr>, \<lparr>Path = ''x/Proto'', Version = ''v1''\<rparr>,
        \<lparr>Path = ''y/proto'', Version = ''v2''\<rparr>, \<lparr>Path = ''x/proto'', Version = ''v3''\<rparr>])
   \<and> filterDependencies
     [\<lparr>Path = ''x/proto'', Version = ''v1''\<rparr>, \<lparr>Path = ''x/Proto'', Version = ''v1''\<rparr>,
      \<lparr>Path = ''y/proto'', Version = ''v2''\<rparr>, \<lparr>Path = ''x/proto'', Version = ''v3''\<rparr>]
     [''y/proto'' \<mapsto> True] ''proto'' = [''x/proto'', ''x/proto'']"
proof
  show "filterDependencies
     [\<lparr>Path = ''x/proto'', Version = ''v1''\<rparr>, \<lparr>Path = ''x/Proto'', Version = ''v1''\<rparr>,
      \<lparr>Path = ''y/proto'', Version = ''v2''\<rparr>, \<lparr>Path = ''x/proto'', Version = ''v3''\<rparr>]
     [''y/proto'' \<mapsto> True] ''proto''
   = map Path (filter (\<lambda>d. \<not> lookup [''y/proto'' \<mapsto> True] (Path d) \<and>
                             (\<exists>pre post. Path d = pre @ ''proto'' @ post))
       [\<lparr>Path = ''x/proto'', Version = ''v1''\<rparr>, \<lparr>Path = ''x/Proto'', Version = ''v1''\<rparr>,
        \<lparr>Path = ''y/proto'', Version = ''v2''\<rparr>, \<lparr>Path = ''x/proto'', Version = ''v3''\<rparr>])"
    by (rule filterDependencies_contract)
  show "filterDependencies
     [\<lparr>Path = ''x/proto'', Version = ''v1''\<rparr>, \<lparr>Path = ''x/Proto'', Version = ''v1''\<rparr>,
      \<lparr>Path = ''y/proto'', Version = ''v2''\<rparr>, \<lparr>Path = ''x/proto'', Version = ''v3''\<rparr>]
     [''y/proto'' \<mapsto> True] ''proto'' = [''x/proto'', ''x/proto'']"
    by (simp add: filterDependencies_def filterStep_def lookup_def Contains_def HasPrefix_def)
qed

text \<open>
  C8. A line of the manifest that contains \<open>indirect\<close> anywhere, also inside a trailing
  comment, adds no record: the record list is the same after the line as before it.
  Every record of the parsed list comes from a line that does not contain \<open>indirect\<close>,
  as a block entry or as the rest of a single-line \<open>require\<close>.
\<close>

theorem indirect_lines_excluded:
  "(i < length (Split content [NL]) \<and> Contains (Split content [NL] ! i) ''indirect'' \<longrightarrow>
      dependencies (parseLines (take (Suc i) (Split content [NL])))
      = dependencies (parseLines (take i (Split content [NL]))))
   \<and> (d \<in> set (fst (parseGoMod content)) \<longrightarrow>
        (\<exists>raw \<in> set (Split content [NL]). \<not> Contains raw ''indirect'' \<and>
           (parseRequireLine (TrimSpace raw) = Some d \<or>
            parseRequireLine (TrimPrefix (TrimSpace raw) ''require '') = Some d)))"
proof (intro conjI impI)
  assume "i < length (Split content [NL]) \<and> Contains (Split content [NL] ! i) ''indirect''"
  then show "dependencies (parseLines (take (Suc i) (Split content [NL])))
      = dependencies (parseLines (take i (Split content [NL])))"
    by (simp add: take_Suc_conv_app_nth parseLines_snoc parseLine_indirect)
next
  assume "d \<in> set (fst (parseGoMod content))"
  then have "d \<in> set (dependencies (foldl parseLine initial_state (Split content [NL])))"
    by (simp add: parseGoMod_def parseLines_def Let_def)
  from foldl_parseLine_dependency_origin [OF this]
  show "\<exists>raw \<in> set (Split content [NL]). \<not> Contains raw ''indirect'' \<and>
           (parseRequireLine (TrimSpace raw) = Some d \<or>
            parseRequireLine (TrimPrefix (TrimSpace raw) ''require '') = Some d)"
    by (simp add: initial_state_def)
qed

theorem indirect_lines_excluded_witness:
  "Contains (Split (''require ('' @ [NL] @ ''a/b v1 // indirect'' @ [NL] @ ''c/d v2'' @ [NL] @ '')'') [NL] ! 1)
     ''indirect''
   \<and> dependencies (parseLines (take 2
        (Split (''require ('' @ [NL] @ ''a/b v1 // indirect'' @ [NL] @ ''c/d v2'' @ [NL] @ '')'') [NL]))) = []
   \<and> fst (parseGoMod (''require ('' @ [NL] @ ''a/b v1 // indirect'' @ [NL] @ ''c/d v2'' @ [NL] @ '')''))
       = [\<lparr>Path = ''c/d'', Version = ''v2''\<rparr>]
   \<and> (\<exists>raw \<in> set (Split (''require ('' @ [NL] @ ''a/b v1 // indirect'' @ [NL] @ ''c/d v2'' @ [NL] @ '')'') [NL]).
         \<not> Contains raw ''indirect'' \<and>
         (parseRequireLine (TrimSpace raw) = Some \<lparr>Path = ''c/d'', Version = ''v2''\<rparr> \<or>
          parseRequireLine (TrimPrefix (TrimSpace raw) ''require '') = Some \<lparr>Path = ''c/d'', Version = ''v2''\<rparr>))"
proof -
  define content where
    "content = ''require ('' @ [NL] @ ''a/b v1 // indirect'' @ [NL] @ ''c/d v2'' @ [NL] @ '')''"
  have s: "Split content [NL] = [''require ('', ''a/b v1 // indirect'', ''c/d v2'', '')'']"
    unfolding content_def by code_simp
  have c: "Contains ''a/b v1 // indirect'' ''indirect''"
    by code_simp
  have p1: "dependencies (parseLines [''require ('']) = []"
    by code_simp
  have g: "fst (parseGoMod content) = [\<lparr>Path = ''c/d'', Version = ''v2''\<rparr>]"
    unfolding content_def by code_simp
  from indirect_lines_excluded [of 1 content "\<lparr>Path = ''c/d'', Version = ''v2''\<rparr>"]
  show ?thesis
    unfolding content_def [symmetric]
    by (simp add: s c p1 g numeral_2_eq_2)
qed




text \<open>
  C10. With the empty string as the partial name the filter returns the path of every
  record that is not in the replaced-set, in the order of the records: the empty string
  is a substring of every path.
\<close>

theorem filterDependencies_empty_partial:
  "filterDependencies deps reps [] = map Path (filter (\<lambda>d. \<not> lookup reps (Path d)) deps)"
  by (simp add: filterDependencies_eq)

theorem filterDependencies_empty_partial_witness:
  "filterDependencies
     [\<lparr>Path = ''a'', Version = ''v1''\<rparr>, \<lparr>Path = ''b'', Version = ''v1''\<rparr>,
      \<lparr>Path = ''c'', Version = ''v2''\<rparr>] [''b'' \<mapsto> True] [] = [''a'', ''c'']"
  using filterDependencies_empty_partial
    [of "[\<lparr>Path = ''a'', Version = ''v1''\<rparr>, \<lparr>Path = ''b'', Version = ''v1''\<rparr>,
          \<lparr>Path = ''c'', Version = ''v2''\<rparr>]" "[''b'' \<mapsto> True]"]
  by (simp add: lookup_def)

end
